theory Spec2Isabelle
  imports Main "HOL-Library.Word"
begin

section \<open>ZKnight proof worker: circuit input normalisation, key cache, message handler\<close>

text \<open>
  A shallow embedding of \<^verbatim>\<open>src/prove.worker.js\<close>. JavaScript numbers that the
  worker handles are integers (grid sizes, coordinates, move codes, identifiers), modelled
  as \<open>int\<close>; the model is exact for the integers that a JavaScript number holds
  exactly, up to \<open>2^53\<close> in absolute value, which \<^verbatim>\<open>String(n)\<close> renders in plain
  digits.
  A property that the source reads with a fallback (\<^verbatim>\<open>puzzle.walls || []\<close>) is an
  \<open>option\<close>, with \<open>None\<close> for \<^verbatim>\<open>undefined\<close>. A property that the source
  dereferences without a guard (\<^verbatim>\<open>puzzle.knight_a_start.x\<close>) is an \<open>option\<close>
  too, and its absence is the \<^verbatim>\<open>TypeError\<close> that the engine raises there.

  The development has three parts: the normaliser \<^verbatim>\<open>buildCircuitInput\<close> as a
  function of its arguments, the key cache and the message handler as state transformers,
  and the normaliser once more on a store of JavaScript objects, where what it writes can be
  told apart from what it reads.
\<close>

subsection \<open>Values thrown\<close>

text \<open>
  The error objects of the worker: the engine's \<^verbatim>\<open>TypeError\<close>, the
  \<^verbatim>\<open>new Error(...)\<close> of \<^verbatim>\<open>fetchZkeyBytes\<close>, and the
  \<^verbatim>\<open>DOMException\<close> of the storage. Only the \<^verbatim>\<open>message\<close> of an error
  object is read.
\<close>

datatype js_error = TypeError string | Error string | DOMException string



subsection \<open>\<^verbatim>\<open>String(n)\<close> on integers\<close>

definition digit_char :: "nat \<Rightarrow> char" where
  "digit_char d = char_of (48 + d)"

fun digits :: "nat \<Rightarrow> string" where
  "digits n = (if n < 10 then [digit_char n] else digits (n div 10) @ [digit_char (n mod 10)])"

declare digits.simps [simp del]

definition js_String :: "int \<Rightarrow> string" where
  "js_String n = (if n < 0 then CHR ''-'' # digits (nat (- n)) else digits (nat n))"

subsection \<open>The puzzle and the circuit input\<close>

datatype coord = Coord (coord_x: int) (coord_y: int)

record barrel =
  path :: "coord list option"

record puzzle =
  puzzle_id :: int
  grid_width :: "int option"
  grid_height :: "int option"
  knight_a_start :: "coord option"
  knight_b_start :: "coord option"
  goal_a :: "coord option"
  goal_b :: "coord option"
  walls :: "coord list option"
  static_tnt :: "coord list option"
  moving_barrels :: "barrel list option"

type_synonym spair = "string \<times> string"

record circuit_input =
  ci_grid_width :: string
  ci_grid_height :: string
  ci_knight_a_start :: spair
  ci_knight_b_start :: spair
  ci_goal_a :: spair
  ci_goal_b :: spair
  ci_walls :: "spair list"
  ci_static_tnt :: "spair list"
  ci_barrel_paths :: "spair list list"
  ci_barrel_path_lengths :: "string list"
  ci_tick_count :: string
  ci_puzzle_id :: string
  ci_moves :: "string list"

text \<open>\<^verbatim>\<open>v || d\<close> on a number that may be missing: \<^verbatim>\<open>undefined\<close> and \<open>0\<close> are falsy.\<close>

definition num_or :: "int option \<Rightarrow> int \<Rightarrow> int" where
  "num_or v d = (case v of None \<Rightarrow> d | Some n \<Rightarrow> if n = 0 then d else n)"

text \<open>\<^verbatim>\<open>v || []\<close> on an array that may be missing: every array is truthy.\<close>

definition arr_or_empty :: "'a list option \<Rightarrow> 'a list" where
  "arr_or_empty v = (case v of None \<Rightarrow> [] | Some xs \<Rightarrow> xs)"

text \<open>\<^verbatim>\<open>[String(w.x), String(w.y)]\<close>\<close>

definition str_pair :: "coord \<Rightarrow> spair" where
  "str_pair w = (js_String (coord_x w), js_String (coord_y w))"

text \<open>\<^verbatim>\<open>while (a.length < n) a.push(OOB.slice())\<close>\<close>

function pad_loop :: "nat \<Rightarrow> spair \<Rightarrow> spair list \<Rightarrow> spair list" where
  "pad_loop n OOB a = (if length a < n then pad_loop n OOB (a @ [OOB]) else a)"
  by pat_completeness auto
termination
  by (relation "measure (\<lambda>(n, OOB, a). n - length a)") auto

declare pad_loop.simps [simp del]

text \<open>\<^verbatim>\<open>for (const w of ws) a.push([String(w.x), String(w.y)])\<close>, from the array built so far.\<close>

fun push_all :: "spair list \<Rightarrow> coord list \<Rightarrow> spair list" where
  "push_all a [] = a"
| "push_all a (w # ws) = push_all (a @ [str_pair w]) ws"

text \<open>
  The body of the loop over the two barrel slots reads
  \<^verbatim>\<open>b < barrels.length && barrels[b].path\<close>: the real path of slot \<open>b\<close>, if any.
\<close>

definition real_path :: "barrel list \<Rightarrow> nat \<Rightarrow> coord list option" where
  "real_path barrels b = (if b < length barrels then path (barrels ! b) else None)"

function barrel_loop ::
  "nat \<Rightarrow> barrel list \<Rightarrow> spair \<Rightarrow> spair list list \<times> string list \<Rightarrow> spair list list \<times> string list"
where
  "barrel_loop b barrels OOB (barrel_paths, barrel_path_lengths) =
     (if b < 2 then
        (case real_path barrels b of
           Some realPath \<Rightarrow>
             barrel_loop (b + 1) barrels OOB
               (barrel_paths @ [pad_loop 16 OOB (push_all [] realPath)],
                barrel_path_lengths @ [js_String (int (length realPath))])
         | None \<Rightarrow>
             barrel_loop (b + 1) barrels OOB
               (barrel_paths @ [pad_loop 16 OOB []],
                barrel_path_lengths @ [''1'']))
      else (barrel_paths, barrel_path_lengths))"
  by pat_completeness auto
termination
  by (relation "measure (\<lambda>(b, barrels, OOB, acc). 2 - b)") auto

declare barrel_loop.simps [simp del]

text \<open>\<^verbatim>\<open>[String(o.x), String(o.y)]\<close> where \<^verbatim>\<open>o\<close> may be \<^verbatim>\<open>undefined\<close>.\<close>

definition deref_pair :: "coord option \<Rightarrow> js_error + spair" where
  "deref_pair v =
     (case v of
        None \<Rightarrow> Inl (TypeError ''Cannot read properties of undefined (reading 'x')'')
      | Some c \<Rightarrow> Inr (str_pair c))"

definition buildCircuitInput :: "int list \<Rightarrow> puzzle \<Rightarrow> int \<Rightarrow> js_error + circuit_input" where
  "buildCircuitInput moves puzzle tick_count =
     (let gw = num_or (grid_width puzzle) 11;
          gh = num_or (grid_height puzzle) 7;
          OOB = (js_String gw, js_String gh);
          walls' = pad_loop 26 OOB (push_all [] (arr_or_empty (walls puzzle)));
          static_tnt' = pad_loop 8 OOB (push_all [] (arr_or_empty (static_tnt puzzle)));
          barrels = arr_or_empty (moving_barrels puzzle);
          (barrel_paths, barrel_path_lengths) = barrel_loop 0 barrels OOB ([], []);
          movesStr = map js_String moves
      in case deref_pair (knight_a_start puzzle) of Inl e \<Rightarrow> Inl e | Inr ka \<Rightarrow>
        (case deref_pair (knight_b_start puzzle) of Inl e \<Rightarrow> Inl e | Inr kb \<Rightarrow>
        (case deref_pair (goal_a puzzle) of Inl e \<Rightarrow> Inl e | Inr ga \<Rightarrow>
        (case deref_pair (goal_b puzzle) of Inl e \<Rightarrow> Inl e | Inr gb \<Rightarrow>
           Inr \<lparr> ci_grid_width = js_String gw,
                 ci_grid_height = js_String gh,
                 ci_knight_a_start = ka,
                 ci_knight_b_start = kb,
                 ci_goal_a = ga,
                 ci_goal_b = gb,
                 ci_walls = walls',
                 ci_static_tnt = static_tnt',
                 ci_barrel_paths = barrel_paths,
                 ci_barrel_path_lengths = barrel_path_lengths,
                 ci_tick_count = js_String tick_count,
                 ci_puzzle_id = js_String (puzzle_id puzzle),
                 ci_moves = movesStr \<rparr>))))"

subsection \<open>The proving-key cache\<close>

text \<open>
  The state outside the worker that \<^verbatim>\<open>fetchZkeyBytes\<close> reads and writes: the
  Cache API storage (cache name, then request URL, to the stored response) and the list of
  the network requests made so far. What the network answers is a parameter: the outcome
  of the \<open>n\<close>-th request of the session, for a URL, is either a rejection of
  \<^verbatim>\<open>fetch\<close> or a response. A response is held with its whole body, so
  \<^verbatim>\<open>res.clone()\<close> and \<^verbatim>\<open>res.arrayBuffer()\<close> read the same bytes.
  \<^verbatim>\<open>cache.put\<close> can reject: with a \<^verbatim>\<open>TypeError\<close> for a response of status
  206, and with the error of the storage for a response that it does not take (a
  \<^verbatim>\<open>QuotaExceededError\<close> when the quota of the origin is used up), which the state
  holds as \<open>storage_rejects\<close>; a rejected \<^verbatim>\<open>put\<close> stores nothing. Opening the
  cache and looking a URL up in it do not fail.
  \<^verbatim>\<open>caches.open\<close> creates the named cache when there
  is none; the model gives every name a cache, empty at first, so this is not a change of
  the state. Console output is not part of the model.
\<close>

type_synonym bytes = "8 word list"

record response =
  status :: nat
  statusText :: string
  body :: bytes

text \<open>\<^verbatim>\<open>res.ok\<close>: the status is in the range 200 to 299.\<close>

definition ok :: "response \<Rightarrow> bool" where
  "ok res = (200 \<le> status res \<and> status res \<le> 299)"

type_synonym cache = "string \<rightharpoonup> response"

record world =
  caches :: "string \<Rightarrow> cache"
  requests :: "string list"
  storage_rejects :: "response \<Rightarrow> js_error option"

type_synonym network = "string \<Rightarrow> nat \<Rightarrow> js_error + response"


definition ZKEY_PATH :: string where
  "ZKEY_PATH = ''https://zknight-assets.wazowsky.id/zknight_final.zkey''"

definition ZKEY_CACHE_NAME :: string where
  "ZKEY_CACHE_NAME = ''zknight-zkey-v1''"

definition fetch :: "network \<Rightarrow> string \<Rightarrow> world \<Rightarrow> (js_error + response) \<times> world" where
  "fetch net url w = (net url (length (requests w)), w\<lparr>requests := requests w @ [url]\<rparr>)"

text \<open>\<^verbatim>\<open>cache.put(url, res)\<close> on the cache of the given name.\<close>

definition cache_put :: "string \<Rightarrow> string \<Rightarrow> response \<Rightarrow> world \<Rightarrow> js_error + world" where
  "cache_put name url res w =
     (if status res = 206 then
        Inl (TypeError ''Failed to execute 'put' on 'Cache': Partial response (status code 206) is unsupported'')
      else
        (case storage_rejects w res of
           Some e \<Rightarrow> Inl e
         | None \<Rightarrow> Inr (w\<lparr>caches := (caches w)(name := (caches w name)(url \<mapsto> res))\<rparr>)))"

definition fetchZkeyBytes :: "network \<Rightarrow> world \<Rightarrow> (js_error + bytes) \<times> world" where
  "fetchZkeyBytes net w =
     (case caches w ZKEY_CACHE_NAME ZKEY_PATH of
        Some cached \<Rightarrow> (Inr (body cached), w)
      | None \<Rightarrow>
          (case fetch net ZKEY_PATH w of
             (Inl e, w1) \<Rightarrow> (Inl e, w1)
           | (Inr res, w1) \<Rightarrow>
               if \<not> ok res then
                 (Inl (Error (''Failed to fetch zkey: '' @ js_String (int (status res)) @ '' ''
                              @ statusText res)), w1)
               else
                 (case cache_put ZKEY_CACHE_NAME ZKEY_PATH res w1 of
                    Inl e \<Rightarrow> (Inl e, w1)
                  | Inr w2 \<Rightarrow> (Inr (body res), w2))))"

text \<open>The calls of a session, one after the other, each in the state the last one left.\<close>

fun fetchZkeyBytes_calls :: "network \<Rightarrow> nat \<Rightarrow> world \<Rightarrow> (js_error + bytes) list \<times> world" where
  "fetchZkeyBytes_calls net 0 w = ([], w)"
| "fetchZkeyBytes_calls net (Suc n) w =
     (case fetchZkeyBytes net w of
        (r, w1) \<Rightarrow> (case fetchZkeyBytes_calls net n w1 of (rs, w2) \<Rightarrow> (r # rs, w2)))"

subsection \<open>The message handler\<close>











section \<open>The normaliser on a store\<close>

text \<open>
  The arguments of \<^verbatim>\<open>buildCircuitInput\<close> are JavaScript objects that the caller
  still holds, and the arrays it builds are objects of the same heap. To say that the
  function leaves its arguments alone, the function is modelled a second time, statement
  by statement, on an explicit store: a value is a primitive or a reference, an object of
  the store is an array or a record of named properties, and a reference is the index of
  its object in the store. An array literal, an object literal, \<^verbatim>\<open>slice\<close> and
  \<^verbatim>\<open>map\<close> allocate at the end of the store; \<^verbatim>\<open>push\<close> is the only
  statement of the source that writes to an object that exists.
\<close>

type_synonym addr = nat

datatype jsval = Undefined | Num int | Str string | Ref addr

datatype obj = Arr "jsval list" | Obj "(string \<times> jsval) list"

type_synonym store = "obj list"

definition lookup :: "store \<Rightarrow> addr \<Rightarrow> obj option" where
  "lookup h a = (if a < length h then Some (h ! a) else None)"

definition alloc :: "obj \<Rightarrow> store \<Rightarrow> addr \<times> store" where
  "alloc ob h = (length h, h @ [ob])"

text \<open>Truthiness: \<^verbatim>\<open>undefined\<close>, \<open>0\<close> and the empty string are falsy.\<close>

fun truthy :: "jsval \<Rightarrow> bool" where
  "truthy Undefined = False"
| "truthy (Num n) = (n \<noteq> 0)"
| "truthy (Str s) = (s \<noteq> [])"
| "truthy (Ref a) = True"

text \<open>
  \<^verbatim>\<open>String(v)\<close>. An array is rendered as its elements joined by commas, a record as
  \<^verbatim>\<open>[object Object]\<close>; the nesting that is followed is bounded by the size of the
  store.
\<close>

fun join_commas :: "string list \<Rightarrow> string" where
  "join_commas [] = []"
| "join_commas [s] = s"
| "join_commas (s # t # ss) = s @ '','' @ join_commas (t # ss)"

fun to_String_depth :: "nat \<Rightarrow> store \<Rightarrow> jsval \<Rightarrow> string" where
  "to_String_depth d h Undefined = ''undefined''"
| "to_String_depth d h (Num n) = js_String n"
| "to_String_depth d h (Str s) = s"
| "to_String_depth 0 h (Ref a) = []"
| "to_String_depth (Suc d) h (Ref a) =
     (case lookup h a of
        None \<Rightarrow> []
      | Some (Obj fs) \<Rightarrow> ''[object Object]''
      | Some (Arr vs) \<Rightarrow>
          join_commas (map (\<lambda>v. if v = Undefined then [] else to_String_depth d h v) vs))"

definition to_String :: "store \<Rightarrow> jsval \<Rightarrow> string" where
  "to_String h v = to_String_depth (Suc (length h)) h v"

text \<open>The property read \<^verbatim>\<open>v.k\<close>.\<close>

definition get :: "store \<Rightarrow> jsval \<Rightarrow> string \<Rightarrow> js_error + jsval" where
  "get h v k =
     (case v of
        Undefined \<Rightarrow>
          Inl (TypeError (''Cannot read properties of undefined (reading '' @ [CHR 0x27] @ k
                          @ [CHR 0x27] @ '')''))
      | Num n \<Rightarrow> Inr Undefined
      | Str s \<Rightarrow> Inr (if k = ''length'' then Num (int (length s)) else Undefined)
      | Ref a \<Rightarrow>
          (case lookup h a of
             None \<Rightarrow> Inr Undefined
           | Some (Arr vs) \<Rightarrow> Inr (if k = ''length'' then Num (int (length vs)) else Undefined)
           | Some (Obj fs) \<Rightarrow> Inr (case map_of fs k of None \<Rightarrow> Undefined | Some v' \<Rightarrow> v')))"

text \<open>The element read \<^verbatim>\<open>v[i]\<close>.\<close>

definition get_index :: "store \<Rightarrow> jsval \<Rightarrow> nat \<Rightarrow> js_error + jsval" where
  "get_index h v i =
     (case v of
        Undefined \<Rightarrow> Inl (TypeError ''Cannot read properties of undefined'')
      | Num n \<Rightarrow> Inr Undefined
      | Str s \<Rightarrow> Inr (if i < length s then Str [s ! i] else Undefined)
      | Ref a \<Rightarrow>
          (case lookup h a of
             Some (Arr vs) \<Rightarrow> Inr (if i < length vs then vs ! i else Undefined)
           | _ \<Rightarrow> Inr Undefined))"

text \<open>\<^verbatim>\<open>i < v\<close> for an index \<open>i\<close>: false when \<open>v\<close> is not a number.\<close>

fun index_less :: "nat \<Rightarrow> jsval \<Rightarrow> bool" where
  "index_less i (Num n) = (int i < n)"
| "index_less i v = False"

text \<open>
  The values that \<^verbatim>\<open>for (const w of v)\<close> visits. The bodies of the loops of the
  source push to an array made just before the loop and to no other, so the array that is
  iterated is the same at every step, and its elements are read once.
\<close>

definition iterate :: "store \<Rightarrow> jsval \<Rightarrow> js_error + jsval list" where
  "iterate h v =
     (case v of
        Str s \<Rightarrow> Inr (map (\<lambda>c. Str [c]) s)
      | Ref a \<Rightarrow>
          (case lookup h a of
             Some (Arr vs) \<Rightarrow> Inr vs
           | _ \<Rightarrow> Inl (TypeError ''object is not iterable''))
      | _ \<Rightarrow> Inl (TypeError ''value is not iterable''))"

text \<open>\<^verbatim>\<open>a.push(v)\<close> on the array at \<open>a\<close>.\<close>

definition push :: "addr \<Rightarrow> jsval \<Rightarrow> store \<Rightarrow> js_error + store" where
  "push a v h =
     (case lookup h a of
        Some (Arr vs) \<Rightarrow> Inr (h[a := Arr (vs @ [v])])
      | _ \<Rightarrow> Inl (TypeError ''push is not a function''))"

text \<open>\<^verbatim>\<open>a.slice()\<close>: a new array with the elements of the array at \<open>a\<close>.\<close>

definition slice :: "addr \<Rightarrow> store \<Rightarrow> js_error + addr \<times> store" where
  "slice a h =
     (case lookup h a of
        Some (Arr vs) \<Rightarrow> Inr (alloc (Arr vs) h)
      | _ \<Rightarrow> Inl (TypeError ''slice is not a function''))"

text \<open>\<^verbatim>\<open>v || []\<close>: the empty array is a new object.\<close>

definition or_empty :: "jsval \<Rightarrow> store \<Rightarrow> jsval \<times> store" where
  "or_empty v h = (if truthy v then (v, h) else (case alloc (Arr []) h of (a, h') \<Rightarrow> (Ref a, h')))"

text \<open>\<^verbatim>\<open>[String(w.x), String(w.y)]\<close>, a new array.\<close>

definition str_pair_st :: "jsval \<Rightarrow> store \<Rightarrow> (js_error + addr) \<times> store" where
  "str_pair_st w h =
     (case get h w ''x'' of
        Inl e \<Rightarrow> (Inl e, h)
      | Inr x \<Rightarrow>
          (case get h w ''y'' of
             Inl e \<Rightarrow> (Inl e, h)
           | Inr y \<Rightarrow>
               (case alloc (Arr [Str (to_String h x), Str (to_String h y)]) h of
                  (a, h') \<Rightarrow> (Inr a, h'))))"

text \<open>The body of \<^verbatim>\<open>for (const w of ws) dst.push([String(w.x), String(w.y)])\<close>, over the values visited.\<close>

fun push_all_st :: "addr \<Rightarrow> jsval list \<Rightarrow> store \<Rightarrow> (js_error + unit) \<times> store" where
  "push_all_st dst [] h = (Inr (), h)"
| "push_all_st dst (w # ws) h =
     (case str_pair_st w h of
        (Inl e, h1) \<Rightarrow> (Inl e, h1)
      | (Inr a, h1) \<Rightarrow>
          (case push dst (Ref a) h1 of
             Inl e \<Rightarrow> (Inl e, h1)
           | Inr h2 \<Rightarrow> push_all_st dst ws h2))"

definition for_of_push :: "addr \<Rightarrow> jsval \<Rightarrow> store \<Rightarrow> (js_error + unit) \<times> store" where
  "for_of_push dst src h =
     (case iterate h src of
        Inl e \<Rightarrow> (Inl e, h)
      | Inr ws \<Rightarrow> push_all_st dst ws h)"

text \<open>\<^verbatim>\<open>v < n\<close> for a capacity \<open>n\<close>: false when \<open>v\<close> is not a number.\<close>

fun less_than :: "jsval \<Rightarrow> nat \<Rightarrow> bool" where
  "less_than (Num l) n = (l < int n)"
| "less_than v n = False"

text \<open>\<^verbatim>\<open>while (dst.length < n) dst.push(OOB.slice())\<close>\<close>

function pad_loop_st :: "nat \<Rightarrow> addr \<Rightarrow> addr \<Rightarrow> store \<Rightarrow> (js_error + unit) \<times> store" where
  "pad_loop_st n OOB dst h =
     (case get h (Ref dst) ''length'' of
        Inl e \<Rightarrow> (Inl e, h)
      | Inr l \<Rightarrow>
          if less_than l n then
            (case slice OOB h of
               Inl e \<Rightarrow> (Inl e, h)
             | Inr (c, h1) \<Rightarrow>
                 (case push dst (Ref c) h1 of
                    Inl e \<Rightarrow> (Inl e, h1)
                  | Inr h2 \<Rightarrow> pad_loop_st n OOB dst h2))
          else (Inr (), h))"
  by pat_completeness auto
termination
proof (relation "measure (\<lambda>(n, OOB, dst, h).
    n - (case lookup h dst of Some (Arr vs) \<Rightarrow> length vs | _ \<Rightarrow> 0))", goal_cases)
  case 1
  show ?case by simp
next
  case (2 n OOB dst h l x c h1 h2)
  from 2(3,4) obtain us where h1: "h1 = h @ [Arr us]" and c: "c = length h"
    by (auto simp: slice_def alloc_def split: option.splits obj.splits)
  from 2(5) obtain vs where vs: "lookup h1 dst = Some (Arr vs)" and h2: "h2 = h1[dst := Arr (vs @ [Ref c])]"
    by (auto simp: push_def split: option.splits obj.splits)
  from vs have d1: "dst < length h1"
    by (auto simp: lookup_def split: if_splits)
  have after: "lookup h2 dst = Some (Arr (vs @ [Ref c]))"
    using d1 by (simp add: h2 lookup_def)
  show ?case
  proof (cases "dst < length h")
    case True
    with vs have "lookup h dst = Some (Arr vs)"
      by (simp add: lookup_def h1 nth_append)
    moreover from this 2(1,2) have "length vs < n"
      by (auto simp: get_def)
    ultimately show ?thesis
      using after by simp
  next
    case False
    then have "lookup h dst = None"
      by (simp add: lookup_def)
    with 2(1,2) show ?thesis
      by (auto simp: get_def)
  qed
qed

declare pad_loop_st.simps [simp del]

text \<open>
  \<^verbatim>\<open>const a = []; for (const w of (puzzle.k || [])) a.push(...); while (a.length < n) a.push(OOB.slice())\<close>:
  the walls and the static TNT.
\<close>

definition fill_st :: "jsval \<Rightarrow> string \<Rightarrow> nat \<Rightarrow> addr \<Rightarrow> store \<Rightarrow> (js_error + addr) \<times> store" where
  "fill_st puzzle k n OOB h =
     (case alloc (Arr []) h of
        (dst, h1) \<Rightarrow>
          (case get h1 puzzle k of
             Inl e \<Rightarrow> (Inl e, h1)
           | Inr v \<Rightarrow>
               (case or_empty v h1 of
                  (src, h2) \<Rightarrow>
                    (case for_of_push dst src h2 of
                       (Inl e, h3) \<Rightarrow> (Inl e, h3)
                     | (Inr u, h3) \<Rightarrow>
                         (case pad_loop_st n OOB dst h3 of
                            (Inl e, h4) \<Rightarrow> (Inl e, h4)
                          | (Inr u', h4) \<Rightarrow> (Inr dst, h4))))))"

text \<open>The value of \<^verbatim>\<open>b < barrels.length && barrels[b].path\<close>.\<close>

definition slot_path :: "nat \<Rightarrow> jsval \<Rightarrow> store \<Rightarrow> js_error + jsval" where
  "slot_path b barrels h =
     (case get h barrels ''length'' of
        Inl e \<Rightarrow> Inl e
      | Inr l \<Rightarrow>
          if index_less b l then
            (case get_index h barrels b of
               Inl e \<Rightarrow> Inl e
             | Inr barrel \<Rightarrow> get h barrel ''path'')
          else Inr Undefined)"

text \<open>The body of the loop over the barrel slots.\<close>

definition barrel_slot_st ::
  "nat \<Rightarrow> jsval \<Rightarrow> addr \<Rightarrow> addr \<Rightarrow> addr \<Rightarrow> store \<Rightarrow> (js_error + unit) \<times> store" where
  "barrel_slot_st b barrels OOB barrel_paths barrel_path_lengths h =
     (case alloc (Arr []) h of
        (path', h1) \<Rightarrow>
          (case slot_path b barrels h1 of
             Inl e \<Rightarrow> (Inl e, h1)
           | Inr realPath \<Rightarrow>
               (case
                  (if truthy realPath then
                     (case get h1 realPath ''length'' of
                        Inl e \<Rightarrow> (Inl e, h1)
                      | Inr l \<Rightarrow>
                          (case push barrel_path_lengths (Str (to_String h1 l)) h1 of
                             Inl e \<Rightarrow> (Inl e, h1)
                           | Inr h2 \<Rightarrow> for_of_push path' realPath h2))
                   else
                     (case push barrel_path_lengths (Str ''1'') h1 of
                        Inl e \<Rightarrow> (Inl e, h1)
                      | Inr h2 \<Rightarrow> (Inr (), h2)))
                of
                  (Inl e, h3) \<Rightarrow> (Inl e, h3)
                | (Inr u, h3) \<Rightarrow>
                    (case pad_loop_st 16 OOB path' h3 of
                       (Inl e, h4) \<Rightarrow> (Inl e, h4)
                     | (Inr u', h4) \<Rightarrow>
                         (case push barrel_paths (Ref path') h4 of
                            Inl e \<Rightarrow> (Inl e, h4)
                          | Inr h5 \<Rightarrow> (Inr (), h5))))))"

function barrel_loop_st ::
  "nat \<Rightarrow> jsval \<Rightarrow> addr \<Rightarrow> addr \<Rightarrow> addr \<Rightarrow> store \<Rightarrow> (js_error + unit) \<times> store" where
  "barrel_loop_st b barrels OOB barrel_paths barrel_path_lengths h =
     (if b < 2 then
        (case barrel_slot_st b barrels OOB barrel_paths barrel_path_lengths h of
           (Inl e, h1) \<Rightarrow> (Inl e, h1)
         | (Inr u, h1) \<Rightarrow> barrel_loop_st (b + 1) barrels OOB barrel_paths barrel_path_lengths h1)
      else (Inr (), h))"
  by pat_completeness auto
termination
  by (relation "measure (\<lambda>(b, barrels, OOB, bp, bl, h). 2 - b)") auto

declare barrel_loop_st.simps [simp del]

text \<open>\<^verbatim>\<open>moves.map(m => String(m))\<close>, a new array.\<close>

definition map_String :: "jsval \<Rightarrow> store \<Rightarrow> (js_error + addr) \<times> store" where
  "map_String moves h =
     (case moves of
        Undefined \<Rightarrow> (Inl (TypeError ''Cannot read properties of undefined (reading 'map')''), h)
      | Ref a \<Rightarrow>
          (case lookup h a of
             Some (Arr vs) \<Rightarrow>
               (case alloc (Arr (map (\<lambda>m. Str (to_String h m)) vs)) h of
                  (a', h') \<Rightarrow> (Inr a', h'))
           | _ \<Rightarrow> (Inl (TypeError ''moves.map is not a function''), h))
      | _ \<Rightarrow> (Inl (TypeError ''moves.map is not a function''), h))"

text \<open>\<^verbatim>\<open>[String(puzzle.k.x), String(puzzle.k.y)]\<close>, a new array.\<close>

definition deref_pair_st :: "jsval \<Rightarrow> string \<Rightarrow> store \<Rightarrow> (js_error + addr) \<times> store" where
  "deref_pair_st puzzle k h =
     (case get h puzzle k of
        Inl e \<Rightarrow> (Inl e, h)
      | Inr v \<Rightarrow> str_pair_st v h)"

definition buildCircuitInput_st ::
  "jsval \<Rightarrow> jsval \<Rightarrow> jsval \<Rightarrow> store \<Rightarrow> (js_error + jsval) \<times> store" where
  "buildCircuitInput_st moves puzzle tick_count h0 =
     (case get h0 puzzle ''grid_width'' of Inl e \<Rightarrow> (Inl e, h0) | Inr gw0 \<Rightarrow>
     (case get h0 puzzle ''grid_height'' of Inl e \<Rightarrow> (Inl e, h0) | Inr gh0 \<Rightarrow>
     (let gw = (if truthy gw0 then gw0 else Num 11);
          gh = (if truthy gh0 then gh0 else Num 7)
      in
     (case alloc (Arr [Str (to_String h0 gw), Str (to_String h0 gh)]) h0 of
        (OOB, h1) \<Rightarrow>
     (case fill_st puzzle ''walls'' 26 OOB h1 of (Inl e, h2) \<Rightarrow> (Inl e, h2) | (Inr walls', h2) \<Rightarrow>
     (case fill_st puzzle ''static_tnt'' 8 OOB h2 of
        (Inl e, h3) \<Rightarrow> (Inl e, h3) | (Inr static_tnt', h3) \<Rightarrow>
     (case get h3 puzzle ''moving_barrels'' of Inl e \<Rightarrow> (Inl e, h3) | Inr mb \<Rightarrow>
     (case or_empty mb h3 of (barrels, h4) \<Rightarrow>
     (case alloc (Arr []) h4 of (barrel_paths, h5) \<Rightarrow>
     (case alloc (Arr []) h5 of (barrel_path_lengths, h6) \<Rightarrow>
     (case barrel_loop_st 0 barrels OOB barrel_paths barrel_path_lengths h6 of
        (Inl e, h7) \<Rightarrow> (Inl e, h7) | (Inr u, h7) \<Rightarrow>
     (case map_String moves h7 of (Inl e, h8) \<Rightarrow> (Inl e, h8) | (Inr movesStr, h8) \<Rightarrow>
     (case deref_pair_st puzzle ''knight_a_start'' h8 of
        (Inl e, h9) \<Rightarrow> (Inl e, h9) | (Inr ka, h9) \<Rightarrow>
     (case deref_pair_st puzzle ''knight_b_start'' h9 of
        (Inl e, h10) \<Rightarrow> (Inl e, h10) | (Inr kb, h10) \<Rightarrow>
     (case deref_pair_st puzzle ''goal_a'' h10 of
        (Inl e, h11) \<Rightarrow> (Inl e, h11) | (Inr ga, h11) \<Rightarrow>
     (case deref_pair_st puzzle ''goal_b'' h11 of
        (Inl e, h12) \<Rightarrow> (Inl e, h12) | (Inr gb, h12) \<Rightarrow>
     (case get h12 puzzle ''id'' of Inl e \<Rightarrow> (Inl e, h12) | Inr pid \<Rightarrow>
     (case alloc
        (Obj [(''grid_width'', Str (to_String h8 gw)),
              (''grid_height'', Str (to_String h8 gh)),
              (''knight_a_start'', Ref ka),
              (''knight_b_start'', Ref kb),
              (''goal_a'', Ref ga),
              (''goal_b'', Ref gb),
              (''walls'', Ref walls'),
              (''static_tnt'', Ref static_tnt'),
              (''barrel_paths'', Ref barrel_paths),
              (''barrel_path_lengths'', Ref barrel_path_lengths),
              (''tick_count'', Str (to_String h12 tick_count)),
              (''puzzle_id'', Str (to_String h12 pid)),
              (''moves'', Ref movesStr)]) h12 of
        (input, h13) \<Rightarrow> (Inr (Ref input), h13)))))))))))))))))))"

subsection \<open>Reading values out of a store\<close>

text \<open>
  What the objects of a store stand for: the puzzle and the moves that the caller passes,
  and the circuit input that the normaliser returns, as the values of the model above.
  The functions read through a partial view \<open>m\<close> of the store, so that a value read in
  a part of the store is known not to depend on the rest.
\<close>

type_synonym view = "addr \<rightharpoonup> obj"

fun read_all :: "(jsval \<Rightarrow> 'a option) \<Rightarrow> jsval list \<Rightarrow> 'a list option" where
  "read_all f [] = Some []"
| "read_all f (v # vs) =
     (case f v of
        None \<Rightarrow> None
      | Some x \<Rightarrow> (case read_all f vs of None \<Rightarrow> None | Some xs \<Rightarrow> Some (x # xs)))"

definition field :: "(string \<times> jsval) list \<Rightarrow> string \<Rightarrow> jsval" where
  "field fs k = (case map_of fs k of None \<Rightarrow> Undefined | Some v \<Rightarrow> v)"

fun read_num :: "jsval \<Rightarrow> int option" where
  "read_num (Num n) = Some n"
| "read_num v = None"

fun read_str :: "jsval \<Rightarrow> string option" where
  "read_str (Str s) = Some s"
| "read_str v = None"

text \<open>A property that may be missing.\<close>

fun read_opt :: "(jsval \<Rightarrow> 'a option) \<Rightarrow> jsval \<Rightarrow> 'a option option" where
  "read_opt f Undefined = Some None"
| "read_opt f v = map_option Some (f v)"

fun read_array :: "view \<Rightarrow> (jsval \<Rightarrow> 'a option) \<Rightarrow> jsval \<Rightarrow> 'a list option" where
  "read_array m f (Ref a) = (case m a of Some (Arr vs) \<Rightarrow> read_all f vs | _ \<Rightarrow> None)"
| "read_array m f v = None"

fun read_coord :: "view \<Rightarrow> jsval \<Rightarrow> coord option" where
  "read_coord m (Ref a) =
     (case m a of
        Some (Obj fs) \<Rightarrow>
          (case (field fs ''x'', field fs ''y'') of
             (Num x, Num y) \<Rightarrow> Some (Coord x y)
           | _ \<Rightarrow> None)
      | _ \<Rightarrow> None)"
| "read_coord m v = None"

fun read_barrel :: "view \<Rightarrow> jsval \<Rightarrow> barrel option" where
  "read_barrel m (Ref a) =
     (case m a of
        Some (Obj fs) \<Rightarrow>
          (case read_opt (read_array m (read_coord m)) (field fs ''path'') of
             Some p \<Rightarrow> Some \<lparr> path = p \<rparr>
           | None \<Rightarrow> None)
      | _ \<Rightarrow> None)"
| "read_barrel m v = None"

text \<open>In the view \<open>m\<close>, the value \<open>v\<close> is the puzzle \<open>p\<close>.\<close>

fun puzzle_at :: "view \<Rightarrow> jsval \<Rightarrow> puzzle \<Rightarrow> bool" where
  "puzzle_at m (Ref a) p =
     (case m a of
        Some (Obj fs) \<Rightarrow>
          read_num (field fs ''id'') = Some (puzzle_id p)
          \<and> read_opt read_num (field fs ''grid_width'') = Some (grid_width p)
          \<and> read_opt read_num (field fs ''grid_height'') = Some (grid_height p)
          \<and> read_opt (read_coord m) (field fs ''knight_a_start'') = Some (knight_a_start p)
          \<and> read_opt (read_coord m) (field fs ''knight_b_start'') = Some (knight_b_start p)
          \<and> read_opt (read_coord m) (field fs ''goal_a'') = Some (goal_a p)
          \<and> read_opt (read_coord m) (field fs ''goal_b'') = Some (goal_b p)
          \<and> read_opt (read_array m (read_coord m)) (field fs ''walls'') = Some (walls p)
          \<and> read_opt (read_array m (read_coord m)) (field fs ''static_tnt'') = Some (static_tnt p)
          \<and> read_opt (read_array m (read_barrel m)) (field fs ''moving_barrels'')
              = Some (moving_barrels p)
      | _ \<Rightarrow> False)"
| "puzzle_at m v p = False"

text \<open>The pair of strings in an array of two strings.\<close>

fun read_pair :: "view \<Rightarrow> jsval \<Rightarrow> spair option" where
  "read_pair m (Ref a) =
     (case m a of
        Some (Arr [Str s1, Str s2]) \<Rightarrow> Some (s1, s2)
      | _ \<Rightarrow> None)"
| "read_pair m v = None"

text \<open>In the view \<open>m\<close>, the value \<open>v\<close> is the circuit input \<open>ci\<close>.\<close>

fun input_at :: "view \<Rightarrow> jsval \<Rightarrow> circuit_input \<Rightarrow> bool" where
  "input_at m (Ref a) ci =
     (case m a of
        Some (Obj fs) \<Rightarrow>
          read_str (field fs ''grid_width'') = Some (ci_grid_width ci)
          \<and> read_str (field fs ''grid_height'') = Some (ci_grid_height ci)
          \<and> read_pair m (field fs ''knight_a_start'') = Some (ci_knight_a_start ci)
          \<and> read_pair m (field fs ''knight_b_start'') = Some (ci_knight_b_start ci)
          \<and> read_pair m (field fs ''goal_a'') = Some (ci_goal_a ci)
          \<and> read_pair m (field fs ''goal_b'') = Some (ci_goal_b ci)
          \<and> read_array m (read_pair m) (field fs ''walls'') = Some (ci_walls ci)
          \<and> read_array m (read_pair m) (field fs ''static_tnt'') = Some (ci_static_tnt ci)
          \<and> read_array m (read_array m (read_pair m)) (field fs ''barrel_paths'')
              = Some (ci_barrel_paths ci)
          \<and> read_array m read_str (field fs ''barrel_path_lengths'')
              = Some (ci_barrel_path_lengths ci)
          \<and> read_str (field fs ''tick_count'') = Some (ci_tick_count ci)
          \<and> read_str (field fs ''puzzle_id'') = Some (ci_puzzle_id ci)
          \<and> read_array m read_str (field fs ''moves'') = Some (ci_moves ci)
      | _ \<Rightarrow> False)"
| "input_at m v ci = False"

subsection \<open>What a run writes, and where the arrays it builds are\<close>

text \<open>
  \<open>frame W h h'\<close>: from the store \<open>h\<close> to the store \<open>h'\<close>, no object was removed, and
  every object of \<open>h\<close> outside the addresses \<open>W\<close> is what it was.
\<close>

definition frame :: "addr set \<Rightarrow> store \<Rightarrow> store \<Rightarrow> bool" where
  "frame W h h' \<longleftrightarrow> length h \<le> length h' \<and> (\<forall>a < length h. a \<notin> W \<longrightarrow> h' ! a = h ! a)"

text \<open>
  In the store \<open>h\<close>, the array at \<open>dst\<close> holds the pairs \<open>ps\<close>, each in an object
  allocated after the array itself.
\<close>

definition pairs_above :: "store \<Rightarrow> addr \<Rightarrow> spair list \<Rightarrow> bool" where
  "pairs_above h dst ps \<longleftrightarrow>
     (\<exists>vs. lookup h dst = Some (Arr vs)
        \<and> read_all (read_pair (lookup h |` {Suc dst..})) vs = Some ps)"

text \<open>
  In the store \<open>h\<close>, the array at \<open>a\<close> holds arrays of pairs \<open>pss\<close>, each of them and
  its pairs in objects at \<open>lo\<close> or above.
\<close>

definition paths_above :: "store \<Rightarrow> addr \<Rightarrow> addr \<Rightarrow> spair list list \<Rightarrow> bool" where
  "paths_above h a lo pss \<longleftrightarrow>
     (\<exists>vs. lookup h a = Some (Arr vs)
        \<and> read_all (read_array (lookup h |` {lo..}) (read_pair (lookup h |` {lo..}))) vs = Some pss)"

section \<open>Example inputs\<close>

subsection \<open>Puzzles and the circuit inputs expected for them\<close>

definition puzzle_one_wall :: puzzle where
  "puzzle_one_wall =
     \<lparr> puzzle_id = 7, grid_width = Some 11, grid_height = Some 7,
       knight_a_start = Some (Coord 0 0), knight_b_start = Some (Coord 10 0),
       goal_a = Some (Coord 10 6), goal_b = Some (Coord 0 6),
       walls = Some [Coord 3 4], static_tnt = Some [Coord 5 5, Coord 6 1],
       moving_barrels = Some [\<lparr> path = Some [Coord 1 1, Coord 2 1, Coord 3 1] \<rparr>] \<rparr>"

definition circuit_one_wall :: circuit_input where
  "circuit_one_wall =
     \<lparr> ci_grid_width = ''11'', ci_grid_height = ''7'',
       ci_knight_a_start = (''0'', ''0''), ci_knight_b_start = (''10'', ''0''),
       ci_goal_a = (''10'', ''6''), ci_goal_b = (''0'', ''6''),
       ci_walls = (''3'', ''4'') # replicate 25 (''11'', ''7''),
       ci_static_tnt = [(''5'', ''5''), (''6'', ''1'')] @ replicate 6 (''11'', ''7''),
       ci_barrel_paths =
         [[(''1'', ''1''), (''2'', ''1''), (''3'', ''1'')] @ replicate 13 (''11'', ''7''),
          replicate 16 (''11'', ''7'')],
       ci_barrel_path_lengths = [''3'', ''1''],
       ci_tick_count = ''3'', ci_puzzle_id = ''7'', ci_moves = [''0'', ''3'', ''4''] \<rparr>"

text \<open>No walls, no TNT, no barrels, on the 11 by 7 grid.\<close>

definition puzzle_empty :: puzzle where
  "puzzle_empty =
     \<lparr> puzzle_id = 1, grid_width = Some 11, grid_height = Some 7,
       knight_a_start = Some (Coord 0 0), knight_b_start = Some (Coord 10 0),
       goal_a = Some (Coord 10 6), goal_b = Some (Coord 0 6),
       walls = Some [], static_tnt = Some [], moving_barrels = Some [] \<rparr>"

definition circuit_empty :: circuit_input where
  "circuit_empty =
     \<lparr> ci_grid_width = ''11'', ci_grid_height = ''7'',
       ci_knight_a_start = (''0'', ''0''), ci_knight_b_start = (''10'', ''0''),
       ci_goal_a = (''10'', ''6''), ci_goal_b = (''0'', ''6''),
       ci_walls = replicate 26 (''11'', ''7''),
       ci_static_tnt = replicate 8 (''11'', ''7''),
       ci_barrel_paths = [replicate 16 (''11'', ''7''), replicate 16 (''11'', ''7'')],
       ci_barrel_path_lengths = [''1'', ''1''],
       ci_tick_count = ''0'', ci_puzzle_id = ''1'', ci_moves = [] \<rparr>"

text \<open>The same puzzle sent with both grid dimensions 0.\<close>

definition puzzle_zero_grid :: puzzle where
  "puzzle_zero_grid = puzzle_empty \<lparr> grid_width := Some 0, grid_height := Some 0 \<rparr>"

text \<open>
  Over every capacity: 27 walls, 9 TNT, three barrels, the first with a path of 17 steps.
\<close>

definition puzzle_over_capacity :: puzzle where
  "puzzle_over_capacity =
     puzzle_empty
       \<lparr> walls := Some (replicate 27 (Coord 1 1)),
         static_tnt := Some (replicate 9 (Coord 2 2)),
         moving_barrels :=
           Some [\<lparr> path = Some (replicate 17 (Coord 3 3)) \<rparr>,
                 \<lparr> path = Some [Coord 4 4] \<rparr>,
                 \<lparr> path = Some [Coord 5 5] \<rparr>] \<rparr>"

definition circuit_over_capacity :: circuit_input where
  "circuit_over_capacity =
     \<lparr> ci_grid_width = ''11'', ci_grid_height = ''7'',
       ci_knight_a_start = (''0'', ''0''), ci_knight_b_start = (''10'', ''0''),
       ci_goal_a = (''10'', ''6''), ci_goal_b = (''0'', ''6''),
       ci_walls = replicate 27 (''1'', ''1''),
       ci_static_tnt = replicate 9 (''2'', ''2''),
       ci_barrel_paths =
         [replicate 17 (''3'', ''3''), (''4'', ''4'') # replicate 15 (''11'', ''7'')],
       ci_barrel_path_lengths = [''17'', ''1''],
       ci_tick_count = ''0'', ci_puzzle_id = ''1'', ci_moves = [] \<rparr>"

subsection \<open>Networks and caches\<close>

definition world_empty :: world where
  "world_empty =
     \<lparr> caches = (\<lambda>name. Map.empty), requests = [], storage_rejects = (\<lambda>res. None) \<rparr>"

text \<open>A network that answers every request with HTTP 500.\<close>

definition response_500 :: response where
  "response_500 = \<lparr> status = 500, statusText = ''Internal Server Error'', body = [] \<rparr>"

definition net_500 :: network where
  "net_500 url n = Inr response_500"

text \<open>
  A network that serves the key on the first request of the session and other bytes later.
\<close>

definition response_key :: response where
  "response_key = \<lparr> status = 200, statusText = ''OK'', body = [1, 2, 3] \<rparr>"

definition net_key_once :: network where
  "net_key_once url n =
     (if n = 0 then Inr response_key
      else Inr \<lparr> status = 200, statusText = ''OK'', body = [9, 9] \<rparr>)"

definition world_key_cached :: world where
  "world_key_cached =
     \<lparr> caches = (\<lambda>name. Map.empty)(ZKEY_CACHE_NAME := [ZKEY_PATH \<mapsto> response_key]),
       requests = [ZKEY_PATH], storage_rejects = (\<lambda>res. None) \<rparr>"



subsection \<open>Provers, worker states and requests\<close>










subsection \<open>A store that holds a puzzle and its moves\<close>

text \<open>
  The moves \<open>[0, 3, 4]\<close> at address 0 and the puzzle \<open>puzzle_one_wall\<close> at address 16,
  with the positions, arrays and barrel it refers to in between.
\<close>

definition store_one_wall :: store where
  "store_one_wall =
     [Arr [Num 0, Num 3, Num 4],
      Obj [(''x'', Num 0), (''y'', Num 0)],
      Obj [(''x'', Num 10), (''y'', Num 0)],
      Obj [(''x'', Num 10), (''y'', Num 6)],
      Obj [(''x'', Num 0), (''y'', Num 6)],
      Obj [(''x'', Num 3), (''y'', Num 4)],
      Arr [Ref 5],
      Obj [(''x'', Num 5), (''y'', Num 5)],
      Obj [(''x'', Num 6), (''y'', Num 1)],
      Arr [Ref 7, Ref 8],
      Obj [(''x'', Num 1), (''y'', Num 1)],
      Obj [(''x'', Num 2), (''y'', Num 1)],
      Obj [(''x'', Num 3), (''y'', Num 1)],
      Arr [Ref 10, Ref 11, Ref 12],
      Obj [(''path'', Ref 13)],
      Arr [Ref 14],
      Obj [(''id'', Num 7), (''grid_width'', Num 11), (''grid_height'', Num 7),
           (''knight_a_start'', Ref 1), (''knight_b_start'', Ref 2),
           (''goal_a'', Ref 3), (''goal_b'', Ref 4),
           (''walls'', Ref 6), (''static_tnt'', Ref 9), (''moving_barrels'', Ref 15)]]"

section \<open>The loops in closed form\<close>

lemma pad_loop_eq: "pad_loop n v a = a @ replicate (n - length a) v"
proof (induction n v a rule: pad_loop.induct)
  case (1 n OOB a)
  show ?case
  proof (cases "length a < n")
    case True
    then have "pad_loop n OOB a = pad_loop n OOB (a @ [OOB])"
      by (simp add: pad_loop.simps)
    also have "\<dots> = (a @ [OOB]) @ replicate (n - length (a @ [OOB])) OOB"
      using 1 True by simp
    also have "\<dots> = a @ replicate (n - length a) OOB"
      using True by (simp add: replicate_append_same Suc_diff_Suc flip: replicate_Suc)
    finally show ?thesis .
  next
    case False
    then show ?thesis by (simp add: pad_loop.simps)
  qed
qed

lemma push_all_eq: "push_all a ws = a @ map str_pair ws"
  by (induction ws arbitrary: a) auto

lemma all_less_2: "(\<forall>b<2. P b) \<longleftrightarrow> P (0::nat) \<and> P 1"
  by (auto simp: less_2_cases_iff)

lemma barrel_loop_step:
  "b < 2 \<Longrightarrow> barrel_loop b bs v (ps, ls) =
     barrel_loop (Suc b) bs v
       (ps @ [case real_path bs b of None \<Rightarrow> replicate 16 v
              | Some rp \<Rightarrow> map str_pair rp @ replicate (16 - length rp) v],
        ls @ [case real_path bs b of None \<Rightarrow> ''1'' | Some rp \<Rightarrow> js_String (int (length rp))])"
  by (subst barrel_loop.simps) (simp add: pad_loop_eq push_all_eq split: option.splits)

lemma barrel_loop_stop: "\<not> b < 2 \<Longrightarrow> barrel_loop b bs v acc = acc"
  by (cases acc) (simp add: barrel_loop.simps)

lemma barrel_loop_0:
  "barrel_loop 0 bs v ([], []) =
     ([case real_path bs 0 of None \<Rightarrow> replicate 16 v
       | Some rp \<Rightarrow> map str_pair rp @ replicate (16 - length rp) v,
       case real_path bs 1 of None \<Rightarrow> replicate 16 v
       | Some rp \<Rightarrow> map str_pair rp @ replicate (16 - length rp) v],
      [case real_path bs 0 of None \<Rightarrow> ''1'' | Some rp \<Rightarrow> js_String (int (length rp)),
       case real_path bs 1 of None \<Rightarrow> ''1'' | Some rp \<Rightarrow> js_String (int (length rp))])"
  by (simp add: barrel_loop_step barrel_loop_stop)

section \<open>The fields of the circuit input\<close>

text \<open>The normaliser fails exactly when one of the four positions it dereferences is missing.\<close>

lemma build_Inr_iff:
  "(\<exists>ci. buildCircuitInput moves p t = Inr ci) \<longleftrightarrow>
     knight_a_start p \<noteq> None \<and> knight_b_start p \<noteq> None \<and> goal_a p \<noteq> None \<and> goal_b p \<noteq> None"
  by (auto simp: buildCircuitInput_def Let_def deref_pair_def
      split: sum.splits prod.splits option.splits)

lemma build_walls:
  assumes "buildCircuitInput moves p t = Inr ci"
  shows "ci_walls ci = map str_pair (arr_or_empty (walls p))
           @ replicate (26 - length (arr_or_empty (walls p)))
               (js_String (num_or (grid_width p) 11), js_String (num_or (grid_height p) 7))"
  using assms
  by (auto simp: buildCircuitInput_def Let_def pad_loop_eq push_all_eq
      split: sum.splits prod.splits)

lemma build_static_tnt:
  assumes "buildCircuitInput moves p t = Inr ci"
  shows "ci_static_tnt ci = map str_pair (arr_or_empty (static_tnt p))
           @ replicate (8 - length (arr_or_empty (static_tnt p)))
               (js_String (num_or (grid_width p) 11), js_String (num_or (grid_height p) 7))"
  using assms
  by (auto simp: buildCircuitInput_def Let_def pad_loop_eq push_all_eq
      split: sum.splits prod.splits)

lemma build_grid:
  assumes "buildCircuitInput moves p t = Inr ci"
  shows "ci_grid_width ci = js_String (num_or (grid_width p) 11)"
    and "ci_grid_height ci = js_String (num_or (grid_height p) 7)"
  using assms
  by (auto simp: buildCircuitInput_def Let_def split: sum.splits prod.splits)

lemma build_barrel_paths:
  assumes "buildCircuitInput moves p t = Inr ci"
  shows "ci_barrel_paths ci =
          [case real_path (arr_or_empty (moving_barrels p)) 0 of
             None \<Rightarrow> replicate 16
               (js_String (num_or (grid_width p) 11), js_String (num_or (grid_height p) 7))
           | Some rp \<Rightarrow> map str_pair rp
               @ replicate (16 - length rp)
                   (js_String (num_or (grid_width p) 11), js_String (num_or (grid_height p) 7)),
           case real_path (arr_or_empty (moving_barrels p)) 1 of
             None \<Rightarrow> replicate 16
               (js_String (num_or (grid_width p) 11), js_String (num_or (grid_height p) 7))
           | Some rp \<Rightarrow> map str_pair rp
               @ replicate (16 - length rp)
                   (js_String (num_or (grid_width p) 11), js_String (num_or (grid_height p) 7))]"
  using assms
  by (auto simp: buildCircuitInput_def Let_def barrel_loop_0 split: sum.splits prod.splits)

lemma build_barrel_path_lengths:
  assumes "buildCircuitInput moves p t = Inr ci"
  shows "ci_barrel_path_lengths ci =
          [case real_path (arr_or_empty (moving_barrels p)) 0 of
             None \<Rightarrow> ''1'' | Some rp \<Rightarrow> js_String (int (length rp)),
           case real_path (arr_or_empty (moving_barrels p)) 1 of
             None \<Rightarrow> ''1'' | Some rp \<Rightarrow> js_String (int (length rp))]"
  using assms
  by (auto simp: buildCircuitInput_def Let_def barrel_loop_0 split: sum.splits prod.splits)

lemma build_one_wall: "buildCircuitInput [0, 3, 4] puzzle_one_wall 3 = Inr circuit_one_wall"
  by code_simp

lemma build_empty: "buildCircuitInput [] puzzle_empty 0 = Inr circuit_empty"
  by code_simp

lemma build_over_capacity:
  "buildCircuitInput [] puzzle_over_capacity 0 = Inr circuit_over_capacity"
  by code_simp

lemma build_zero_grid: "buildCircuitInput [] puzzle_zero_grid 0 = Inr circuit_empty"
  by code_simp

section \<open>The normaliser\<close>

text \<open>
  C1. For a puzzle that supplies at most 26 walls (none, when the field is missing), the
  \<open>walls\<close> of the circuit input that \<open>buildCircuitInput\<close> returns has exactly 26
  entries: the walls of the puzzle, each as its pair of decimal strings, in their order,
  and then the pair \<open>(String(grid_width), String(grid_height))\<close> of the resolved grid
  dimensions in every remaining place.
\<close>

theorem walls_padded_to_26:
  assumes "buildCircuitInput moves p t = Inr ci"
    and "length (arr_or_empty (walls p)) \<le> 26"
  shows "length (ci_walls ci) = 26 \<and>
         ci_walls ci =
           map str_pair (arr_or_empty (walls p))
           @ replicate (26 - length (arr_or_empty (walls p)))
               (js_String (num_or (grid_width p) 11), js_String (num_or (grid_height p) 7))"
  using assms(2) by (simp add: build_walls [OF assms(1)])

theorem walls_padded_to_26_witness:
  "buildCircuitInput [0, 3, 4] puzzle_one_wall 3 = Inr circuit_one_wall
   \<and> length (arr_or_empty (walls puzzle_one_wall)) \<le> 26
   \<and> length (ci_walls circuit_one_wall) = 26
   \<and> ci_walls circuit_one_wall = (''3'', ''4'') # replicate 25 (''11'', ''7'')"
proof -
  have k: "length (arr_or_empty (walls puzzle_one_wall)) \<le> 26"
    by (simp add: puzzle_one_wall_def arr_or_empty_def)
  have e: "ci_walls circuit_one_wall = (''3'', ''4'') # replicate 25 (''11'', ''7'')"
    by (simp add: circuit_one_wall_def)
  from walls_padded_to_26 [OF build_one_wall k] build_one_wall k e show ?thesis by simp
qed

text \<open>
  C2. The circuit input always has two barrel paths and two barrel path lengths. A slot
  \<open>b\<close> holds a real barrel when the puzzle has a barrel at index \<open>b\<close> and that barrel
  has a path. For a slot without one, the length is the string \<open>1\<close> and the path is 16
  copies of the sentinel pair. For a slot with one, the length is the decimal string of the
  number of steps of the real path, and the path is the steps of the real path in their
  order, followed by the sentinel pair up to 16 steps (by none, when the real path has 16
  steps or more).
\<close>

theorem barrel_slots:
  assumes "buildCircuitInput moves p t = Inr ci"
  shows "length (ci_barrel_paths ci) = 2 \<and> length (ci_barrel_path_lengths ci) = 2 \<and>
         (\<forall>b < 2.
            case real_path (arr_or_empty (moving_barrels p)) b of
              None \<Rightarrow>
                ci_barrel_path_lengths ci ! b = ''1'' \<and>
                ci_barrel_paths ci ! b =
                  replicate 16
                    (js_String (num_or (grid_width p) 11), js_String (num_or (grid_height p) 7))
            | Some realPath \<Rightarrow>
                ci_barrel_path_lengths ci ! b = js_String (int (length realPath)) \<and>
                ci_barrel_paths ci ! b =
                  map str_pair realPath
                  @ replicate (16 - length realPath)
                      (js_String (num_or (grid_width p) 11), js_String (num_or (grid_height p) 7)))"
  unfolding build_barrel_paths [OF assms] build_barrel_path_lengths [OF assms] all_less_2
  by (simp split: option.splits)

theorem barrel_slots_witness:
  "buildCircuitInput [0, 3, 4] puzzle_one_wall 3 = Inr circuit_one_wall
   \<and> real_path (arr_or_empty (moving_barrels puzzle_one_wall)) 0
       = Some [Coord 1 1, Coord 2 1, Coord 3 1]
   \<and> real_path (arr_or_empty (moving_barrels puzzle_one_wall)) 1 = None
   \<and> ci_barrel_path_lengths circuit_one_wall = [''3'', ''1'']
   \<and> ci_barrel_paths circuit_one_wall ! 0
       = [(''1'', ''1''), (''2'', ''1''), (''3'', ''1'')] @ replicate 13 (''11'', ''7'')
   \<and> ci_barrel_paths circuit_one_wall ! 1 = replicate 16 (''11'', ''7'')"
proof -
  have r0: "real_path (arr_or_empty (moving_barrels puzzle_one_wall)) 0
      = Some [Coord 1 1, Coord 2 1, Coord 3 1]"
    and r1: "real_path (arr_or_empty (moving_barrels puzzle_one_wall)) 1 = None"
    by (simp_all add: puzzle_one_wall_def arr_or_empty_def real_path_def)
  have "length (ci_barrel_paths circuit_one_wall) = 2"
    using barrel_slots [OF build_one_wall] by simp
  then show ?thesis
    using build_one_wall r0 r1 by (simp add: circuit_one_wall_def)
qed

text \<open>
  C7. For a puzzle that supplies at most 8 static TNT entries, \<open>static_tnt\<close> has exactly
  8 entries: the entries of the puzzle as pairs of decimal strings, in their order, then
  the sentinel pair. And a barrel slot whose real path has at most 16 steps has a path of
  exactly 16 steps: the steps of the real path, in their order, then the sentinel pair.
\<close>

theorem static_tnt_and_paths_padded:
  assumes "buildCircuitInput moves p t = Inr ci"
  shows "(length (arr_or_empty (static_tnt p)) \<le> 8 \<longrightarrow>
            length (ci_static_tnt ci) = 8 \<and>
            ci_static_tnt ci =
              map str_pair (arr_or_empty (static_tnt p))
              @ replicate (8 - length (arr_or_empty (static_tnt p)))
                  (js_String (num_or (grid_width p) 11), js_String (num_or (grid_height p) 7)))
       \<and> (\<forall>b < 2. \<forall>realPath.
            real_path (arr_or_empty (moving_barrels p)) b = Some realPath \<and> length realPath \<le> 16 \<longrightarrow>
            length (ci_barrel_paths ci ! b) = 16 \<and>
            ci_barrel_paths ci ! b =
              map str_pair realPath
              @ replicate (16 - length realPath)
                  (js_String (num_or (grid_width p) 11), js_String (num_or (grid_height p) 7)))"
  unfolding build_barrel_paths [OF assms] build_static_tnt [OF assms] all_less_2
  by simp

theorem static_tnt_and_paths_padded_witness:
  "buildCircuitInput [0, 3, 4] puzzle_one_wall 3 = Inr circuit_one_wall
   \<and> length (arr_or_empty (static_tnt puzzle_one_wall)) \<le> 8
   \<and> real_path (arr_or_empty (moving_barrels puzzle_one_wall)) 0
       = Some [Coord 1 1, Coord 2 1, Coord 3 1]
   \<and> length [Coord 1 1, Coord 2 1, Coord 3 1] \<le> 16
   \<and> length (ci_static_tnt circuit_one_wall) = 8
   \<and> ci_static_tnt circuit_one_wall = [(''5'', ''5''), (''6'', ''1'')] @ replicate 6 (''11'', ''7'')
   \<and> length (ci_barrel_paths circuit_one_wall ! 0) = 16
   \<and> ci_barrel_paths circuit_one_wall ! 0
       = [(''1'', ''1''), (''2'', ''1''), (''3'', ''1'')] @ replicate 13 (''11'', ''7'')"
proof -
  have k: "length (arr_or_empty (static_tnt puzzle_one_wall)) \<le> 8"
    by (simp add: puzzle_one_wall_def arr_or_empty_def)
  have r0: "real_path (arr_or_empty (moving_barrels puzzle_one_wall)) 0
      = Some [Coord 1 1, Coord 2 1, Coord 3 1]"
    by (simp add: puzzle_one_wall_def arr_or_empty_def real_path_def)
  note padded = static_tnt_and_paths_padded [OF build_one_wall]
  from padded k have "length (ci_static_tnt circuit_one_wall) = 8"
    by blast
  moreover from padded r0 have "length (ci_barrel_paths circuit_one_wall ! 0) = 16"
    by (simp add: all_less_2)
  ultimately show ?thesis
    using build_one_wall k r0 by (simp add: circuit_one_wall_def)
qed

text \<open>
  C3, as the code has it. The normaliser pads and never truncates: \<open>walls\<close> has 26
  entries when the puzzle supplies at most 26 walls, and as many as the puzzle supplies
  otherwise; \<open>static_tnt\<close> likewise with 8; a barrel path has 16 steps when the real path
  has at most 16, and as many as the real path otherwise. Only the number of barrel slots
  is fixed: \<open>barrel_paths\<close> and \<open>barrel_path_lengths\<close> have 2 entries whatever the
  puzzle supplies, and barrels after the second are not read.
\<close>

theorem output_lengths:
  assumes "buildCircuitInput moves p t = Inr ci"
  shows "length (ci_walls ci) = max 26 (length (arr_or_empty (walls p)))
       \<and> length (ci_static_tnt ci) = max 8 (length (arr_or_empty (static_tnt p)))
       \<and> length (ci_barrel_paths ci) = 2
       \<and> length (ci_barrel_path_lengths ci) = 2
       \<and> (\<forall>b < 2.
            length (ci_barrel_paths ci ! b) =
              (case real_path (arr_or_empty (moving_barrels p)) b of
                 None \<Rightarrow> 16 | Some realPath \<Rightarrow> max 16 (length realPath)))"
  unfolding build_barrel_paths [OF assms] build_barrel_path_lengths [OF assms]
    build_walls [OF assms] build_static_tnt [OF assms] all_less_2
  by (auto split: option.splits)

theorem output_lengths_witness:
  "buildCircuitInput [] puzzle_over_capacity 0 = Inr circuit_over_capacity
   \<and> length (ci_walls circuit_over_capacity) = 27
   \<and> length (ci_static_tnt circuit_over_capacity) = 9
   \<and> length (ci_barrel_paths circuit_over_capacity) = 2
   \<and> length (ci_barrel_path_lengths circuit_over_capacity) = 2
   \<and> length (ci_barrel_paths circuit_over_capacity ! 0) = 17
   \<and> length (ci_barrel_paths circuit_over_capacity ! 1) = 16"
  using output_lengths [OF build_over_capacity] build_over_capacity
  by (simp add: all_less_2 puzzle_over_capacity_def puzzle_empty_def arr_or_empty_def
      real_path_def)

text \<open>
  C3 as stated fails: a puzzle with 27 walls gets a \<open>walls\<close> of 27 entries, not 26.
\<close>

theorem output_lengths_counterexample:
  "buildCircuitInput [] puzzle_over_capacity 0 = Inr circuit_over_capacity
   \<and> length (ci_walls circuit_over_capacity) \<noteq> 26"
  using build_over_capacity by (simp add: circuit_over_capacity_def)

text \<open>
  C9. The grid dimensions of the circuit input are those of the puzzle, and 11 and 7 when
  the puzzle has none (or has 0, see C10). For a puzzle with no walls, no TNT and no
  barrels on the 11 by 7 grid, \<open>walls\<close> is 26 copies of \<open>("11", "7")\<close>,
  \<open>static_tnt\<close> is 8 copies, the barrel path lengths are \<open>["1", "1"]\<close> and both
  barrel paths are 16 copies.
\<close>

theorem grid_defaults_and_empty_puzzle:
  assumes "buildCircuitInput moves p t = Inr ci"
  shows "ci_grid_width ci =
           (case grid_width p of None \<Rightarrow> ''11'' | Some w \<Rightarrow> if w = 0 then ''11'' else js_String w)
       \<and> ci_grid_height ci =
           (case grid_height p of None \<Rightarrow> ''7'' | Some h \<Rightarrow> if h = 0 then ''7'' else js_String h)
       \<and> (arr_or_empty (walls p) = [] \<and> arr_or_empty (static_tnt p) = []
            \<and> arr_or_empty (moving_barrels p) = []
            \<and> (grid_width p = Some 11 \<or> grid_width p = None)
            \<and> (grid_height p = Some 7 \<or> grid_height p = None) \<longrightarrow>
          ci_walls ci = replicate 26 (''11'', ''7'')
          \<and> ci_static_tnt ci = replicate 8 (''11'', ''7'')
          \<and> ci_barrel_path_lengths ci = [''1'', ''1'']
          \<and> ci_barrel_paths ci = [replicate 16 (''11'', ''7''), replicate 16 (''11'', ''7'')])"
proof -
  have s11: "js_String 11 = ''11''" and s7: "js_String 7 = ''7''"
    by code_simp+
  have w: "ci_grid_width ci =
      (case grid_width p of None \<Rightarrow> ''11'' | Some w \<Rightarrow> if w = 0 then ''11'' else js_String w)"
    unfolding build_grid [OF assms] num_or_def by (simp add: s11 split: option.splits)
  have h: "ci_grid_height ci =
      (case grid_height p of None \<Rightarrow> ''7'' | Some h \<Rightarrow> if h = 0 then ''7'' else js_String h)"
    unfolding build_grid [OF assms] num_or_def by (simp add: s7 split: option.splits)
  have e: "ci_walls ci = replicate 26 (''11'', ''7'')
          \<and> ci_static_tnt ci = replicate 8 (''11'', ''7'')
          \<and> ci_barrel_path_lengths ci = [''1'', ''1'']
          \<and> ci_barrel_paths ci = [replicate 16 (''11'', ''7''), replicate 16 (''11'', ''7'')]"
    if "arr_or_empty (walls p) = []" "arr_or_empty (static_tnt p) = []"
      "arr_or_empty (moving_barrels p) = []"
      "grid_width p = Some 11 \<or> grid_width p = None"
      "grid_height p = Some 7 \<or> grid_height p = None"
  proof -
    from that(4) have gw: "js_String (num_or (grid_width p) 11) = ''11''"
      by (auto simp: num_or_def s11)
    from that(5) have gh: "js_String (num_or (grid_height p) 7) = ''7''"
      by (auto simp: num_or_def s7)
    show ?thesis
      unfolding build_walls [OF assms] build_static_tnt [OF assms]
        build_barrel_paths [OF assms] build_barrel_path_lengths [OF assms]
      by (simp add: that(1-3) gw gh real_path_def)
  qed
  from w h e show ?thesis by blast
qed

theorem grid_defaults_and_empty_puzzle_witness:
  "buildCircuitInput [] puzzle_empty 0 = Inr circuit_empty
   \<and> arr_or_empty (walls puzzle_empty) = [] \<and> arr_or_empty (static_tnt puzzle_empty) = []
   \<and> arr_or_empty (moving_barrels puzzle_empty) = []
   \<and> grid_width puzzle_empty = Some 11 \<and> grid_height puzzle_empty = Some 7
   \<and> ci_grid_width circuit_empty = ''11'' \<and> ci_grid_height circuit_empty = ''7''
   \<and> ci_walls circuit_empty = replicate 26 (''11'', ''7'')
   \<and> ci_static_tnt circuit_empty = replicate 8 (''11'', ''7'')
   \<and> ci_barrel_path_lengths circuit_empty = [''1'', ''1'']
   \<and> ci_barrel_paths circuit_empty = [replicate 16 (''11'', ''7''), replicate 16 (''11'', ''7'')]"
proof -
  have pre: "arr_or_empty (walls puzzle_empty) = [] \<and> arr_or_empty (static_tnt puzzle_empty) = []
     \<and> arr_or_empty (moving_barrels puzzle_empty) = []
     \<and> grid_width puzzle_empty = Some 11 \<and> grid_height puzzle_empty = Some 7"
    by (simp add: puzzle_empty_def arr_or_empty_def)
  from grid_defaults_and_empty_puzzle [OF build_empty] pre
  have "ci_walls circuit_empty = replicate 26 (''11'', ''7'')
      \<and> ci_static_tnt circuit_empty = replicate 8 (''11'', ''7'')
      \<and> ci_barrel_path_lengths circuit_empty = [''1'', ''1'']
      \<and> ci_barrel_paths circuit_empty = [replicate 16 (''11'', ''7''), replicate 16 (''11'', ''7'')]"
    by blast
  then show ?thesis
    using build_empty pre by (simp add: circuit_empty_def)
qed

text \<open>
  C10. A grid dimension that the puzzle gives as 0 is replaced by the default, as a missing
  one is: the circuit input then has \<open>grid_width = "11"\<close> (or \<open>grid_height = "7"\<close>),
  and the sentinel pair that fills the unused places of \<open>walls\<close>, \<open>static_tnt\<close> and
  the barrel paths is the pair of the grid dimensions that the circuit input carries.
\<close>

theorem zero_grid_dimension_is_default:
  assumes "buildCircuitInput moves p t = Inr ci"
  shows "(grid_width p = Some 0 \<longrightarrow> ci_grid_width ci = ''11'')
       \<and> (grid_height p = Some 0 \<longrightarrow> ci_grid_height ci = ''7'')
       \<and> ci_walls ci =
           map str_pair (arr_or_empty (walls p))
           @ replicate (26 - length (arr_or_empty (walls p))) (ci_grid_width ci, ci_grid_height ci)
       \<and> ci_static_tnt ci =
           map str_pair (arr_or_empty (static_tnt p))
           @ replicate (8 - length (arr_or_empty (static_tnt p)))
               (ci_grid_width ci, ci_grid_height ci)
       \<and> (\<forall>b < 2.
            ci_barrel_paths ci ! b =
              (case real_path (arr_or_empty (moving_barrels p)) b of
                 None \<Rightarrow> replicate 16 (ci_grid_width ci, ci_grid_height ci)
               | Some realPath \<Rightarrow>
                   map str_pair realPath
                   @ replicate (16 - length realPath) (ci_grid_width ci, ci_grid_height ci)))"
proof -
  have s11: "js_String 11 = ''11''" and s7: "js_String 7 = ''7''"
    by code_simp+
  have "grid_width p = Some 0 \<longrightarrow> ci_grid_width ci = ''11''"
    and "grid_height p = Some 0 \<longrightarrow> ci_grid_height ci = ''7''"
    unfolding build_grid [OF assms] by (simp_all add: num_or_def s11 s7)
  moreover have "ci_walls ci =
      map str_pair (arr_or_empty (walls p))
      @ replicate (26 - length (arr_or_empty (walls p))) (ci_grid_width ci, ci_grid_height ci)"
    unfolding build_grid [OF assms] by (rule build_walls [OF assms])
  moreover have "ci_static_tnt ci =
      map str_pair (arr_or_empty (static_tnt p))
      @ replicate (8 - length (arr_or_empty (static_tnt p))) (ci_grid_width ci, ci_grid_height ci)"
    unfolding build_grid [OF assms] by (rule build_static_tnt [OF assms])
  moreover have "\<forall>b < 2.
      ci_barrel_paths ci ! b =
        (case real_path (arr_or_empty (moving_barrels p)) b of
           None \<Rightarrow> replicate 16 (ci_grid_width ci, ci_grid_height ci)
         | Some realPath \<Rightarrow>
             map str_pair realPath
             @ replicate (16 - length realPath) (ci_grid_width ci, ci_grid_height ci))"
    unfolding build_grid [OF assms] build_barrel_paths [OF assms] all_less_2 by simp
  ultimately show ?thesis by blast
qed

theorem zero_grid_dimension_is_default_witness:
  "buildCircuitInput [] puzzle_zero_grid 0 = Inr circuit_empty
   \<and> grid_width puzzle_zero_grid = Some 0 \<and> grid_height puzzle_zero_grid = Some 0
   \<and> ci_grid_width circuit_empty = ''11'' \<and> ci_grid_height circuit_empty = ''7''
   \<and> ci_walls circuit_empty = replicate 26 (''11'', ''7'')"
proof -
  have z: "grid_width puzzle_zero_grid = Some 0 \<and> grid_height puzzle_zero_grid = Some 0"
    by (simp add: puzzle_zero_grid_def)
  from zero_grid_dimension_is_default [OF build_zero_grid] z
  have "ci_grid_width circuit_empty = ''11'' \<and> ci_grid_height circuit_empty = ''7''"
    by blast
  then show ?thesis
    using build_zero_grid z by (simp add: circuit_empty_def)
qed

section \<open>The proving-key cache\<close>

lemma fetchZkeyBytes_hit:
  assumes "caches w ZKEY_CACHE_NAME ZKEY_PATH = Some cached"
  shows "fetchZkeyBytes net w = (Inr (body cached), w)"
  using assms by (simp add: fetchZkeyBytes_def)

lemma fetchZkeyBytes_calls_hit:
  assumes "caches w ZKEY_CACHE_NAME ZKEY_PATH = Some cached"
  shows "fetchZkeyBytes_calls net n w = (replicate n (Inr (body cached)), w)"
  by (induction n) (simp_all add: fetchZkeyBytes_hit [OF assms])

text \<open>
  C5. On a cache miss, when the network answers with a status outside 200 to 299,
  \<open>fetchZkeyBytes\<close> fails with the error whose message carries the status and its text,
  and the caches are what they were: nothing is written for the URL or for any other.
\<close>

theorem fetch_failure_leaves_cache:
  assumes "caches w ZKEY_CACHE_NAME ZKEY_PATH = None"
    and "net ZKEY_PATH (length (requests w)) = Inr res"
    and "\<not> ok res"
  shows "fst (fetchZkeyBytes net w) =
           Inl (Error (''Failed to fetch zkey: '' @ js_String (int (status res)) @ '' ''
                       @ statusText res))
       \<and> caches (snd (fetchZkeyBytes net w)) = caches w"
  using assms by (simp add: fetchZkeyBytes_def fetch_def)

theorem fetch_failure_leaves_cache_witness:
  "caches world_empty ZKEY_CACHE_NAME ZKEY_PATH = None
   \<and> net_500 ZKEY_PATH (length (requests world_empty)) = Inr response_500
   \<and> \<not> ok response_500
   \<and> fst (fetchZkeyBytes net_500 world_empty)
       = Inl (Error ''Failed to fetch zkey: 500 Internal Server Error'')
   \<and> caches (snd (fetchZkeyBytes net_500 world_empty)) = caches world_empty"
proof -
  have miss: "caches world_empty ZKEY_CACHE_NAME ZKEY_PATH = None"
    by (simp add: world_empty_def)
  have net: "net_500 ZKEY_PATH (length (requests world_empty)) = Inr response_500"
    by (simp add: net_500_def)
  have nok: "\<not> ok response_500"
    by (simp add: ok_def response_500_def)
  have s: "js_String (int (status response_500)) = ''500''"
    by code_simp
  from fetch_failure_leaves_cache [of world_empty net_500 response_500, OF miss net nok]
  have "fst (fetchZkeyBytes net_500 world_empty)
       = Inl (Error ''Failed to fetch zkey: 500 Internal Server Error'')
     \<and> caches (snd (fetchZkeyBytes net_500 world_empty)) = caches world_empty"
    by (simp add: s) (simp add: response_500_def)
  with miss net nok show ?thesis
    by simp
qed

text \<open>
  C6. When a call of \<open>fetchZkeyBytes\<close> that misses the cache succeeds, it made exactly
  one network request, and the bytes it returns and the response it stores under the URL
  are those of the one response to that request. From then on, in any state where the
  cache still holds that entry and whatever the network would answer, a call returns the
  same bytes and leaves the state as it is, so it makes no network request; the same
  holds for any number of calls in a row.
\<close>

theorem cached_key_is_served:
  assumes "caches w ZKEY_CACHE_NAME ZKEY_PATH = None"
    and "fetchZkeyBytes net w = (Inr zkeyBytes, w1)"
  shows "\<exists>res. net ZKEY_PATH (length (requests w)) = Inr res
           \<and> body res = zkeyBytes
           \<and> caches w1 ZKEY_CACHE_NAME ZKEY_PATH = Some res
           \<and> requests w1 = requests w @ [ZKEY_PATH]
           \<and> (\<forall>net' w2. caches w2 ZKEY_CACHE_NAME ZKEY_PATH = Some res \<longrightarrow>
                  fetchZkeyBytes net' w2 = (Inr zkeyBytes, w2))
           \<and> (\<forall>net' n. fetchZkeyBytes_calls net' n w1 = (replicate n (Inr zkeyBytes), w1))"
proof -
  from assms obtain res where
    net: "net ZKEY_PATH (length (requests w)) = Inr res" and "ok res"
    and b: "body res = zkeyBytes"
    and w1: "cache_put ZKEY_CACHE_NAME ZKEY_PATH res (w\<lparr>requests := requests w @ [ZKEY_PATH]\<rparr>)
               = Inr w1"
    by (auto simp: fetchZkeyBytes_def fetch_def split: sum.splits if_splits)
  have c: "caches w1 ZKEY_CACHE_NAME ZKEY_PATH = Some res"
    and r: "requests w1 = requests w @ [ZKEY_PATH]"
    using w1 by (auto simp: cache_put_def split: if_splits option.splits)
  have one: "fetchZkeyBytes net' w2 = (Inr zkeyBytes, w2)"
    if "caches w2 ZKEY_CACHE_NAME ZKEY_PATH = Some res" for net' w2
    using fetchZkeyBytes_hit [OF that] b by simp
  have many: "fetchZkeyBytes_calls net' n w1 = (replicate n (Inr zkeyBytes), w1)" for net' n
    using fetchZkeyBytes_calls_hit [OF c] b by simp
  from net b c r one many show ?thesis by blast
qed

lemma fetch_key_once:
  "fetchZkeyBytes net_key_once world_empty = (Inr [1, 2, 3], world_key_cached)"
  by (simp add: fetchZkeyBytes_def fetch_def world_empty_def net_key_once_def response_key_def
      ok_def cache_put_def world_key_cached_def)

theorem cached_key_is_served_witness:
  "caches world_empty ZKEY_CACHE_NAME ZKEY_PATH = None
   \<and> fetchZkeyBytes net_key_once world_empty = (Inr [1, 2, 3], world_key_cached)
   \<and> requests world_key_cached = requests world_empty @ [ZKEY_PATH]
   \<and> fetchZkeyBytes_calls net_key_once 3 world_key_cached
       = ([Inr [1, 2, 3], Inr [1, 2, 3], Inr [1, 2, 3]], world_key_cached)"
proof -
  have miss: "caches world_empty ZKEY_CACHE_NAME ZKEY_PATH = None"
    by (simp add: world_empty_def)
  from cached_key_is_served [of world_empty net_key_once "[1, 2, 3]" world_key_cached,
      OF miss fetch_key_once]
  have "requests world_key_cached = requests world_empty @ [ZKEY_PATH]"
    and "fetchZkeyBytes_calls net_key_once 3 world_key_cached
           = (replicate 3 (Inr [1, 2, 3]), world_key_cached)"
    by blast+
  then show ?thesis
    using miss fetch_key_once by (simp add: numeral_3_eq_3)
qed

section \<open>The message handler\<close>
















section \<open>What a run on the store writes\<close>

lemma frame_refl: "frame W h h"
  by (simp add: frame_def)

lemma frame_trans:
  assumes "frame W h h1" and "frame W' h1 h2" and "\<And>a. a \<in> W' \<Longrightarrow> a < length h \<Longrightarrow> a \<in> W"
  shows "frame W h h2"
  using assms unfolding frame_def by (metis le_trans less_le_trans)

lemma frame_mono: "frame W h h' \<Longrightarrow> W \<subseteq> W' \<Longrightarrow> frame W' h h'"
  by (auto simp: frame_def)

lemma frame_length: "frame W h h' \<Longrightarrow> length h \<le> length h'"
  by (simp add: frame_def)

lemma frame_empty_take: "frame {} h h' \<longleftrightarrow> take (length h) h' = h"
proof
  assume "frame {} h h'"
  then show "take (length h) h' = h"
    by (auto simp: frame_def intro!: nth_equalityI)
next
  assume t: "take (length h) h' = h"
  have l: "length h \<le> length h'"
    using arg_cong [OF t, of length] by simp
  have "h' ! a = h ! a" if "a < length h" for a
    using that t by (metis nth_take)
  with l show "frame {} h h'"
    by (simp add: frame_def)
qed

lemma frame_alloc: "alloc ob h = (a, h') \<Longrightarrow> frame W h h' \<and> a = length h \<and> length h' = Suc (length h)"
  by (auto simp: alloc_def frame_def nth_append)

lemma frame_push: "push d v h = Inr h' \<Longrightarrow> frame {d} h h' \<and> length h' = length h"
  by (auto simp: push_def frame_def split: option.splits obj.splits)

lemma frame_slice: "slice a h = Inr (c, h') \<Longrightarrow> frame W h h' \<and> c = length h"
  by (auto simp: slice_def alloc_def frame_def nth_append split: option.splits obj.splits)

lemma frame_or_empty: "or_empty v h = (src, h') \<Longrightarrow> frame W h h'"
  by (auto simp: or_empty_def alloc_def frame_def nth_append split: if_splits)

lemma frame_str_pair_st: "str_pair_st w h = (r, h') \<Longrightarrow> frame W h h'"
  by (auto simp: str_pair_st_def alloc_def frame_def nth_append split: sum.splits)

lemma frame_push_all_st: "push_all_st dst ws h = (r, h') \<Longrightarrow> frame {dst} h h'"
proof (induction ws arbitrary: h)
  case Nil
  then show ?case by (simp add: frame_refl)
next
  case (Cons w ws)
  obtain r1 h1 where s: "str_pair_st w h = (r1, h1)"
    by (cases "str_pair_st w h")
  then have f1: "frame {dst} h h1"
    by (rule frame_str_pair_st)
  show ?case
  proof (cases r1)
    case (Inl e)
    with Cons.prems s f1 show ?thesis by simp
  next
    case (Inr a)
    show ?thesis
    proof (cases "push dst (Ref a) h1")
      case (Inl e)
      with Cons.prems s Inr f1 show ?thesis by simp
    next
      case p: (Inr h2)
      with Cons.prems s Inr have "push_all_st dst ws h2 = (r, h')"
        by simp
      then have "frame {dst} h2 h'"
        by (rule Cons.IH)
      moreover from p have "frame {dst} h1 h2"
        by (simp add: frame_push)
      ultimately show ?thesis
        using f1 by (blast intro: frame_trans)
    qed
  qed
qed

lemma frame_for_of_push: "for_of_push dst src h = (r, h') \<Longrightarrow> frame {dst} h h'"
  by (auto simp: for_of_push_def frame_refl frame_push_all_st split: sum.splits)

lemma frame_pad_loop_st: "pad_loop_st n OOB dst h = (r, h') \<Longrightarrow> frame {dst} h h'"
proof (induction n OOB dst h rule: pad_loop_st.induct)
  case (1 n OOB dst h)
  show ?case
  proof (cases "get h (Ref dst) ''length''")
    case (Inl e)
    with "1.prems" show ?thesis
      by (simp add: pad_loop_st.simps [of n OOB dst h] frame_refl)
  next
    case l: (Inr l)
    show ?thesis
    proof (cases "less_than l n")
      case False
      with "1.prems" l show ?thesis
        by (simp add: pad_loop_st.simps [of n OOB dst h] frame_refl)
    next
      case True
      show ?thesis
      proof (cases "slice OOB h")
        case (Inl e)
        with "1.prems" l True show ?thesis
          by (simp add: pad_loop_st.simps [of n OOB dst h] frame_refl)
      next
        case (Inr ch)
        obtain c h1 where ch: "ch = (c, h1)"
          by (cases ch)
        from Inr ch have f1: "frame {dst} h h1"
          by (simp add: frame_slice)
        show ?thesis
        proof (cases "push dst (Ref c) h1")
          case (Inl e)
          with "1.prems" l True Inr ch f1 show ?thesis
            by (simp add: pad_loop_st.simps [of n OOB dst h])
        next
          case p: (Inr h2)
          with "1.prems" l True Inr ch have "pad_loop_st n OOB dst h2 = (r, h')"
            by (simp add: pad_loop_st.simps [of n OOB dst h])
          with "1.IH" l True Inr ch p have "frame {dst} h2 h'"
            by simp
          moreover from p have "frame {dst} h1 h2"
            by (simp add: frame_push)
          ultimately show ?thesis
            using f1 by (blast intro: frame_trans)
        qed
      qed
    qed
  qed
qed

text \<open>
  Through a sequence of statements: what holds of the store where a statement fails also
  holds of the store that the sequence leaves.
\<close>

lemma frame_bind:
  assumes "frame W h0 (snd m)"
    and "\<And>a h1. m = (Inr a, h1) \<Longrightarrow> frame W h0 h1 \<Longrightarrow> frame W h0 (snd (K a h1))"
  shows "frame W h0 (snd (case m of (Inl e, h1) \<Rightarrow> (Inl e, h1) | (Inr a, h1) \<Rightarrow> K a h1))"
  using assms by (cases m) (auto split: sum.splits)

lemma frame_read:
  assumes "frame W h0 h"
    and "\<And>v. g = Inr v \<Longrightarrow> frame W h0 (snd (K v))"
  shows "frame W h0 (snd (case g of Inl e \<Rightarrow> (Inl e, h) | Inr v \<Rightarrow> K v))"
  using assms by (cases g) auto

lemma frame_pair:
  assumes "\<And>a h1. m = (a, h1) \<Longrightarrow> frame W h0 (snd (K a h1))"
  shows "frame W h0 (snd (case m of (a, h1) \<Rightarrow> K a h1))"
  using assms by (cases m) auto

lemma frame_step:
  assumes "frame {n..} h0 h" and "frame W h h'" and "W \<subseteq> {n..}"
  shows "frame {n..} h0 h'"
  using assms by (auto intro: frame_trans [OF assms(1) assms(2)])

lemma frame_fill_st:
  assumes "frame {n..} h0 h" and "n \<le> length h"
  shows "frame {n..} h0 (snd (fill_st puzzle k m OOB h))"
  unfolding fill_st_def
proof (rule frame_pair, rule frame_read, goal_cases)
  case (1 dst h1)
  with assms show ?case
    by (auto dest!: frame_alloc [where W = "{}"] intro: frame_step)
next
  case (2 dst h1 v)
  from 2(1) have a: "frame {} h h1" "dst = length h"
    by (auto dest: frame_alloc)
  have f1: "frame {n..} h0 h1"
    using assms(1) a(1) by (rule frame_step) simp
  have d: "{dst} \<subseteq> {n..}"
    using a(2) assms(2) by simp
  show ?case
  proof (rule frame_pair, rule frame_bind, goal_cases)
    case (1 src h2)
    then have "frame {} h1 h2"
      by (rule frame_or_empty)
    with f1 have f2: "frame {n..} h0 h2"
      by (rule frame_step) simp
    obtain r h3 where "for_of_push dst src h2 = (r, h3)"
      by (cases "for_of_push dst src h2")
    then show ?case
      using frame_step [OF f2 frame_for_of_push d] by simp
  next
    case (2 src h2 u h3)
    obtain r h4 where p: "pad_loop_st m OOB dst h3 = (r, h4)"
      by (cases "pad_loop_st m OOB dst h3")
    from frame_step [OF 2(3) frame_pad_loop_st [OF p] d] p show ?case
      by (auto split: sum.splits)
  qed
qed

lemma frame_barrel_slot_st:
  "frame {barrel_paths, barrel_path_lengths} h
     (snd (barrel_slot_st b barrels OOB barrel_paths barrel_path_lengths h))"
  unfolding barrel_slot_st_def
proof (rule frame_pair, rule frame_read, goal_cases)
  case (1 p h1)
  then show ?case
    by (simp add: frame_alloc)
next
  case (2 p h1 realPath)
  let ?W = "{barrel_paths, barrel_path_lengths}"
  from 2(1) have f1: "frame ?W h h1" and p: "p = length h"
    by (simp_all add: frame_alloc)
  have new: "a \<in> {p} \<Longrightarrow> a < length h \<Longrightarrow> a \<in> ?W" for a
    using p by simp
  show ?case
  proof (rule frame_bind, goal_cases)
    case 1
    show ?case
    proof (cases "truthy realPath")
      case True
      have "frame ?W h (snd (case get h1 realPath ''length'' of
          Inl e \<Rightarrow> (Inl e, h1)
        | Inr l \<Rightarrow>
            (case push barrel_path_lengths (Str (to_String h1 l)) h1 of
               Inl e \<Rightarrow> (Inl e, h1)
             | Inr h2 \<Rightarrow> for_of_push p realPath h2)))"
      proof (rule frame_read [OF f1], rule frame_read [OF f1], goal_cases)
        case (1 l h2)
        from 1(2) have "frame ?W h1 h2"
          by (auto dest!: frame_push intro: frame_mono)
        with f1 have f2: "frame ?W h h2"
          by (rule frame_trans) simp
        obtain r h3 where "for_of_push p realPath h2 = (r, h3)"
          by (cases "for_of_push p realPath h2")
        with frame_trans [OF f2 frame_for_of_push new] show ?case
          using frame_length [OF f2] p by simp
      qed
      with True show ?thesis by simp
    next
      case False
      have "frame ?W h (snd (case push barrel_path_lengths (Str ''1'') h1 of
          Inl e \<Rightarrow> (Inl e, h1) | Inr h2 \<Rightarrow> (Inr (), h2)))"
      proof (rule frame_read [OF f1], goal_cases)
        case (1 h2)
        then have "frame ?W h1 h2"
          by (auto dest!: frame_push intro: frame_mono)
        with f1 show ?case
          by (auto intro: frame_trans)
      qed
      with False show ?thesis by simp
    qed
  next
    case (2 u h3)
    show ?case
    proof (rule frame_bind, goal_cases)
      case 1
      obtain r h4 where "pad_loop_st 16 OOB p h3 = (r, h4)"
        by (cases "pad_loop_st 16 OOB p h3")
      with frame_trans [OF 2(2) frame_pad_loop_st new] show ?case
        by simp
    next
      case (2 u' h4)
      show ?case
      proof (rule frame_read [OF 2(2)], goal_cases)
        case (1 h5)
        then have "frame ?W h4 h5"
          by (auto dest!: frame_push intro: frame_mono)
        with 2(2) show ?case
          by (auto intro: frame_trans)
      qed
    qed
  qed
qed

lemma frame_barrel_loop_st:
  "frame {barrel_paths, barrel_path_lengths} h
     (snd (barrel_loop_st b barrels OOB barrel_paths barrel_path_lengths h))"
proof (induction b barrels OOB barrel_paths barrel_path_lengths h rule: barrel_loop_st.induct)
  case (1 b barrels OOB barrel_paths barrel_path_lengths h)
  show ?case
  proof (cases "b < 2")
    case False
    then show ?thesis
      by (simp add: barrel_loop_st.simps [of b] frame_refl)
  next
    case True
    have "frame {barrel_paths, barrel_path_lengths} h
      (snd (case barrel_slot_st b barrels OOB barrel_paths barrel_path_lengths h of
          (Inl e, h1) \<Rightarrow> (Inl e, h1)
        | (Inr u, h1) \<Rightarrow> barrel_loop_st (b + 1) barrels OOB barrel_paths barrel_path_lengths h1))"
    proof (rule frame_bind [OF frame_barrel_slot_st], goal_cases)
      case (1 u h1)
      from "1.IH" [OF True 1(1) [symmetric] refl] 1(2) show ?case
        by (auto intro: frame_trans)
    qed
    with True show ?thesis
      by (simp add: barrel_loop_st.simps [of b])
  qed
qed

lemma frame_map_String: "frame W h (snd (map_String moves h))"
  by (auto simp: map_String_def frame_refl alloc_def frame_def nth_append
      split: jsval.splits option.splits obj.splits)

lemma frame_deref_pair_st: "frame W h (snd (deref_pair_st puzzle k h))"
proof -
  have "frame W h (snd (str_pair_st v h))" for v
    by (cases "str_pair_st v h") (auto dest: frame_str_pair_st)
  then show ?thesis
    by (auto simp: deref_pair_st_def frame_refl split: sum.splits)
qed

lemma keep_alloc:
  assumes "frame W h0 h"
    and "\<And>a h1. a = length h \<Longrightarrow> frame W h0 h1 \<Longrightarrow> frame W h0 (snd (K a h1))"
  shows "frame W h0 (snd (case alloc ob h of (a, h1) \<Rightarrow> K a h1))"
proof (rule frame_pair)
  fix a h1
  assume a: "alloc ob h = (a, h1)"
  then have "frame {} h h1" and l: "a = length h"
    by (simp_all add: frame_alloc)
  with assms(1) have "frame W h0 h1"
    by (auto intro: frame_trans)
  with l show "frame W h0 (snd (K a h1))"
    by (rule assms(2))
qed

lemma keep_or_empty:
  assumes "frame W h0 h"
    and "\<And>v' h1. frame W h0 h1 \<Longrightarrow> frame W h0 (snd (K v' h1))"
  shows "frame W h0 (snd (case or_empty v h of (v', h1) \<Rightarrow> K v' h1))"
proof (rule frame_pair)
  fix v' h1
  assume "or_empty v h = (v', h1)"
  then have "frame {} h h1"
    by (rule frame_or_empty)
  with assms(1) have "frame W h0 h1"
    by (auto intro: frame_trans)
  then show "frame W h0 (snd (K v' h1))"
    by (rule assms(2))
qed

text \<open>
  Whatever the arguments and the store, a run of the normaliser leaves every object that
  the store held as it was: it allocates, and writes to what it allocated.
\<close>

lemma buildCircuitInput_st_frame:
  "take (length h0) (snd (buildCircuitInput_st moves puzzle tick_count h0)) = h0"
proof -
  let ?W = "{length h0..}"
  have below: "frame ?W h0 h \<Longrightarrow> length h0 \<le> length h" for h
    by (rule frame_length)
  have step: "frame ?W h0 h \<Longrightarrow> frame W h (snd m) \<Longrightarrow> W \<subseteq> ?W \<Longrightarrow> frame ?W h0 (snd m)"
    for h W and m :: "('a \<times> store)"
    by (rule frame_step)
  have "frame ?W h0 (snd (buildCircuitInput_st moves puzzle tick_count h0))"
    unfolding buildCircuitInput_st_def Let_def
    apply (rule frame_read, rule frame_refl)
    apply (rule frame_read, rule frame_refl)
    apply (rule keep_alloc, rule frame_refl)
    apply (rule frame_bind)
     apply (rule frame_fill_st, assumption, erule below)
    apply (rule frame_bind)
     apply (rule frame_fill_st, assumption, erule below)
    apply (rule frame_read, assumption)
    apply (rule keep_or_empty, assumption)
    apply (rule keep_alloc, assumption)
    apply (rule keep_alloc, assumption)
    apply (rule frame_bind)
     apply (erule step, rule frame_barrel_loop_st)
     apply (simp add: below)
    apply (rule frame_bind)
     apply (erule step, rule frame_map_String [where W = "{}"], simp)
    apply (rule frame_bind)
     apply (erule step, rule frame_deref_pair_st [where W = "{}"], simp)
    apply (rule frame_bind)
     apply (erule step, rule frame_deref_pair_st [where W = "{}"], simp)
    apply (rule frame_bind)
     apply (erule step, rule frame_deref_pair_st [where W = "{}"], simp)
    apply (rule frame_bind)
     apply (erule step, rule frame_deref_pair_st [where W = "{}"], simp)
    apply (rule frame_read, assumption)
    apply (rule keep_alloc, assumption)
    apply simp
    done
  then have "frame {} h0 (snd (buildCircuitInput_st moves puzzle tick_count h0))"
    by (auto simp: frame_def)
  then show ?thesis
    by (simp add: frame_empty_take)
qed

section \<open>The run on the store computes the normaliser\<close>

subsection \<open>Reading\<close>

lemma read_all_mono:
  assumes "read_all f vs = Some xs"
    and "\<And>v x. v \<in> set vs \<Longrightarrow> f v = Some x \<Longrightarrow> g v = Some x"
  shows "read_all g vs = Some xs"
  using assms by (induction vs arbitrary: xs) (auto split: option.splits)

lemma read_all_append:
  "read_all f (vs @ ws) =
     (case read_all f vs of
        None \<Rightarrow> None
      | Some xs \<Rightarrow> (case read_all f ws of None \<Rightarrow> None | Some ys \<Rightarrow> Some (xs @ ys)))"
  by (induction vs) (auto split: option.splits)

lemma read_all_length: "read_all f vs = Some xs \<Longrightarrow> length xs = length vs"
  by (induction vs arbitrary: xs) (auto split: option.splits)

lemma read_all_nth: "read_all f vs = Some xs \<Longrightarrow> i < length vs \<Longrightarrow> f (vs ! i) = Some (xs ! i)"
  by (induction vs arbitrary: xs i) (auto split: option.splits simp: nth_Cons')

lemma read_all_map: "(\<And>x. x \<in> set xs \<Longrightarrow> f (g x) = Some (k x)) \<Longrightarrow> read_all f (map g xs) = Some (map k xs)"
  by (induction xs) auto

lemma read_opt_mono:
  assumes "read_opt f v = Some xo" and "\<And>x. f v = Some x \<Longrightarrow> g v = Some x"
  shows "read_opt g v = Some xo"
  using assms by (cases v) auto

lemma read_array_mono:
  assumes "read_array m f v = Some xs" and "m \<subseteq>\<^sub>m m'"
    and "\<And>v x. f v = Some x \<Longrightarrow> g v = Some x"
  shows "read_array m' g v = Some xs"
proof (cases v)
  case (Ref a)
  with assms(1) obtain vs where m: "m a = Some (Arr vs)" and r: "read_all f vs = Some xs"
    by (auto split: option.splits obj.splits)
  from m assms(2) have "m' a = Some (Arr vs)"
    by (auto simp: map_le_def dom_def)
  with Ref read_all_mono [OF r] assms(3) show ?thesis
    by simp
qed (use assms(1) in simp_all)

lemma read_coord_mono: "read_coord m v = Some c \<Longrightarrow> m \<subseteq>\<^sub>m m' \<Longrightarrow> read_coord m' v = Some c"
proof (cases v)
  case (Ref a)
  assume r: "read_coord m v = Some c" and le: "m \<subseteq>\<^sub>m m'"
  from r Ref obtain fs where m: "m a = Some (Obj fs)"
    by (auto split: option.splits obj.splits)
  with le have "m' a = Some (Obj fs)"
    by (auto simp: map_le_def dom_def)
  with r Ref m show ?thesis
    by simp
qed simp_all

lemma read_pair_mono: "read_pair m v = Some c \<Longrightarrow> m \<subseteq>\<^sub>m m' \<Longrightarrow> read_pair m' v = Some c"
proof (cases v)
  case (Ref a)
  assume r: "read_pair m v = Some c" and le: "m \<subseteq>\<^sub>m m'"
  from r Ref obtain ob where m: "m a = Some ob"
    by (auto split: option.splits)
  with le have "m' a = Some ob"
    by (auto simp: map_le_def dom_def)
  with r Ref m show ?thesis
    by simp
qed simp_all

lemma read_coords_mono:
  "read_array m (read_coord m) v = Some cs \<Longrightarrow> m \<subseteq>\<^sub>m m' \<Longrightarrow>
     read_array m' (read_coord m') v = Some cs"
  by (erule read_array_mono) (auto intro: read_coord_mono)

lemma read_barrel_mono: "read_barrel m v = Some b \<Longrightarrow> m \<subseteq>\<^sub>m m' \<Longrightarrow> read_barrel m' v = Some b"
proof (cases v)
  case (Ref a)
  assume r: "read_barrel m v = Some b" and le: "m \<subseteq>\<^sub>m m'"
  from r Ref obtain fs where m: "m a = Some (Obj fs)"
    by (auto split: option.splits obj.splits)
  with le have m': "m' a = Some (Obj fs)"
    by (auto simp: map_le_def dom_def)
  from r Ref m obtain p where
    p: "read_opt (read_array m (read_coord m)) (field fs ''path'') = Some p" and b: "b = \<lparr> path = p \<rparr>"
    by (auto split: option.splits)
  from p have "read_opt (read_array m' (read_coord m')) (field fs ''path'') = Some p"
    by (rule read_opt_mono) (rule read_coords_mono [OF _ le])
  with Ref m' b show ?thesis
    by simp
qed simp_all

lemma puzzle_at_mono:
  assumes "puzzle_at m v p" and le: "m \<subseteq>\<^sub>m m'"
  shows "puzzle_at m' v p"
proof (cases v)
  case (Ref a)
  with assms(1) obtain fs where m: "m a = Some (Obj fs)"
    by (auto split: option.splits obj.splits)
  with le have m': "m' a = Some (Obj fs)"
    by (auto simp: map_le_def dom_def)
  have c: "read_opt (read_coord m) u = Some x \<Longrightarrow> read_opt (read_coord m') u = Some x" for u x
    by (erule read_opt_mono) (rule read_coord_mono [OF _ le])
  have cs: "read_opt (read_array m (read_coord m)) u = Some x \<Longrightarrow>
      read_opt (read_array m' (read_coord m')) u = Some x" for u x
    by (erule read_opt_mono) (rule read_coords_mono [OF _ le])
  have bs: "read_opt (read_array m (read_barrel m)) u = Some x \<Longrightarrow>
      read_opt (read_array m' (read_barrel m')) u = Some x" for u x
    by (erule read_opt_mono) (erule read_array_mono [OF _ le], rule read_barrel_mono [OF _ le])
  from assms(1) Ref m m' show ?thesis
    by (auto intro: c cs bs)
qed (use assms(1) in simp_all)

lemma read_pairs_mono:
  "read_array m (read_pair m) v = Some ps \<Longrightarrow> m \<subseteq>\<^sub>m m' \<Longrightarrow>
     read_array m' (read_pair m') v = Some ps"
  by (erule read_array_mono) (auto intro: read_pair_mono)

lemma read_paths_mono:
  "read_array m (read_array m (read_pair m)) v = Some ps \<Longrightarrow> m \<subseteq>\<^sub>m m' \<Longrightarrow>
     read_array m' (read_array m' (read_pair m')) v = Some ps"
  by (erule read_array_mono) (auto intro: read_pairs_mono)

lemma read_strs_mono:
  "read_array m read_str v = Some ss \<Longrightarrow> m \<subseteq>\<^sub>m m' \<Longrightarrow> read_array m' read_str v = Some ss"
  by (erule read_array_mono) auto

lemma input_at_mono:
  assumes "input_at m v ci" and le: "m \<subseteq>\<^sub>m m'"
  shows "input_at m' v ci"
proof (cases v)
  case (Ref a)
  with assms(1) obtain fs where m: "m a = Some (Obj fs)"
    by (auto split: option.splits obj.splits)
  with le have m': "m' a = Some (Obj fs)"
    by (auto simp: map_le_def dom_def)
  from assms(1) Ref m m' show ?thesis
    by (auto intro: read_pair_mono [OF _ le] read_pairs_mono [OF _ le] read_paths_mono [OF _ le]
        read_strs_mono [OF _ le])
qed (use assms(1) in simp_all)

subsection \<open>Views of a store\<close>

lemma lookup_Some: "lookup h a = Some ob \<longleftrightarrow> a < length h \<and> h ! a = ob"
  by (auto simp: lookup_def)

lemma lookup_frame: "frame W h h' \<Longrightarrow> a \<notin> W \<Longrightarrow> lookup h a = Some ob \<Longrightarrow> lookup h' a = Some ob"
  by (auto simp: frame_def lookup_Some)

lemma view_frame: "frame W h h' \<Longrightarrow> m \<subseteq>\<^sub>m lookup h \<Longrightarrow> dom m \<inter> W = {} \<Longrightarrow> m \<subseteq>\<^sub>m lookup h'"
  unfolding map_le_def by (metis disjoint_iff domD lookup_frame domI)

lemma view_frame_empty: "frame {} h h' \<Longrightarrow> lookup h \<subseteq>\<^sub>m lookup h'"
  by (erule view_frame) simp_all

lemma view_restrict_frame:
  "frame W h h' \<Longrightarrow> W \<inter> S = {} \<Longrightarrow> lookup h |` S \<subseteq>\<^sub>m lookup h' |` S"
  unfolding map_le_def
  by (auto simp: restrict_map_def dom_def split: if_splits dest: lookup_frame)

lemma view_restrict_le: "S \<subseteq> T \<Longrightarrow> m |` S \<subseteq>\<^sub>m m |` T"
  by (auto simp: map_le_def restrict_map_def)

lemma view_restrict_le_self: "m |` S \<subseteq>\<^sub>m m"
  by (auto simp: map_le_def restrict_map_def)

lemma view_dom: "m \<subseteq>\<^sub>m lookup h \<Longrightarrow> a \<in> dom m \<Longrightarrow> a < length h"
  by (auto simp: map_le_def lookup_def dom_def split: if_splits)

lemma view_lookup: "m \<subseteq>\<^sub>m lookup h \<Longrightarrow> m a = Some ob \<Longrightarrow> lookup h a = Some ob"
  by (auto simp: map_le_def dom_def)

subsection \<open>Reads of the source on objects that a view holds\<close>

lemma to_String_Num: "to_String h (Num n) = js_String n"
  by (simp add: to_String_def)

lemma get_Obj: "lookup h a = Some (Obj fs) \<Longrightarrow> get h (Ref a) k = Inr (field fs k)"
  by (simp add: get_def field_def)

lemma get_Arr_length:
  "lookup h a = Some (Arr vs) \<Longrightarrow> get h (Ref a) ''length'' = Inr (Num (int (length vs)))"
  by (simp add: get_def)

lemma get_coord:
  assumes "read_coord m w = Some c" and "m \<subseteq>\<^sub>m lookup h"
  shows "get h w ''x'' = Inr (Num (coord_x c))" and "get h w ''y'' = Inr (Num (coord_y c))"
proof -
  from assms(1) obtain a fs where w: "w = Ref a" and m: "m a = Some (Obj fs)"
    and f: "field fs ''x'' = Num (coord_x c)" "field fs ''y'' = Num (coord_y c)"
    by (cases w) (auto split: option.splits obj.splits jsval.splits)
  from view_lookup [OF assms(2) m] have "lookup h a = Some (Obj fs)" .
  with w f show "get h w ''x'' = Inr (Num (coord_x c))" and "get h w ''y'' = Inr (Num (coord_y c))"
    by (simp_all add: get_Obj)
qed

lemma str_pair_st_coord:
  assumes "read_coord m w = Some c" and "m \<subseteq>\<^sub>m lookup h"
  shows "str_pair_st w h = (Inr (length h), h @ [Arr [Str (fst (str_pair c)), Str (snd (str_pair c))]])"
  by (simp add: str_pair_st_def get_coord [OF assms] alloc_def to_String_Num str_pair_def)

subsection \<open>The loops\<close>

lemma pairs_above_empty: "lookup h dst = Some (Arr []) \<Longrightarrow> pairs_above h dst []"
  by (simp add: pairs_above_def)

lemma pairs_above_read:
  assumes "pairs_above h dst ps"
  shows "read_array (lookup h) (read_pair (lookup h)) (Ref dst) = Some ps"
proof -
  from assms obtain vs where l: "lookup h dst = Some (Arr vs)"
    and r: "read_all (read_pair (lookup h |` {Suc dst..})) vs = Some ps"
    by (auto simp: pairs_above_def)
  from r have "read_all (read_pair (lookup h)) vs = Some ps"
    by (rule read_all_mono) (erule read_pair_mono, rule view_restrict_le_self)
  with l show ?thesis by simp
qed

lemma pairs_above_length: "pairs_above h dst ps \<Longrightarrow> \<exists>vs. lookup h dst = Some (Arr vs) \<and> length vs = length ps"
  by (auto simp: pairs_above_def dest: read_all_length)

lemma pairs_above_push:
  assumes "pairs_above h dst ps"
  shows "\<exists>h2. push dst (Ref (length h)) (h @ [Arr [Str s1, Str s2]]) = Inr h2
           \<and> frame {dst} h h2 \<and> pairs_above h2 dst (ps @ [(s1, s2)])"
proof -
  let ?h1 = "h @ [Arr [Str s1, Str s2]]"
  from assms obtain vs where l: "lookup h dst = Some (Arr vs)"
    and r: "read_all (read_pair (lookup h |` {Suc dst..})) vs = Some ps"
    by (auto simp: pairs_above_def)
  from l have d: "dst < length h" and hd: "h ! dst = Arr vs"
    by (simp_all add: lookup_Some)
  let ?h2 = "?h1[dst := Arr (vs @ [Ref (length h)])]"
  have p: "push dst (Ref (length h)) ?h1 = Inr ?h2"
    using d hd by (simp add: push_def lookup_def nth_append)
  have f: "frame {dst} h ?h2"
    using d by (auto simp: frame_def nth_append)
  have l2: "lookup ?h2 dst = Some (Arr (vs @ [Ref (length h)]))"
    using d by (simp add: lookup_def)
  have old: "read_all (read_pair (lookup ?h2 |` {Suc dst..})) vs = Some ps"
    using r
    by (rule read_all_mono) (erule read_pair_mono, rule view_restrict_frame [OF f], simp)
  have new: "read_pair (lookup ?h2 |` {Suc dst..}) (Ref (length h)) = Some (s1, s2)"
    using d by (simp add: lookup_def restrict_map_def nth_append)
  from old new have "read_all (read_pair (lookup ?h2 |` {Suc dst..})) (vs @ [Ref (length h)])
      = Some (ps @ [(s1, s2)])"
    by (simp add: read_all_append)
  with l2 have "pairs_above ?h2 dst (ps @ [(s1, s2)])"
    by (auto simp: pairs_above_def)
  with p f show ?thesis by blast
qed

lemma push_all_st_ok:
  assumes "read_all (read_coord m) ws = Some cs" and "m \<subseteq>\<^sub>m lookup h" and "dst \<notin> dom m"
    and "pairs_above h dst ps"
  shows "\<exists>h'. push_all_st dst ws h = (Inr (), h') \<and> frame {dst} h h'
           \<and> pairs_above h' dst (ps @ map str_pair cs)"
  using assms
proof (induction ws arbitrary: cs h ps)
  case Nil
  then show ?case by (auto simp: frame_refl)
next
  case (Cons w ws)
  from Cons.prems(1) obtain c cs' where cs: "cs = c # cs'" and c: "read_coord m w = Some c"
    and r: "read_all (read_coord m) ws = Some cs'"
    by (auto split: option.splits)
  obtain s1 s2 where sp: "str_pair c = (s1, s2)"
    by (cases "str_pair c")
  from str_pair_st_coord [OF c Cons.prems(2)] sp
  have s: "str_pair_st w h = (Inr (length h), h @ [Arr [Str s1, Str s2]])"
    by simp
  from pairs_above_push [OF Cons.prems(4), of s1 s2] obtain h2 where
    p: "push dst (Ref (length h)) (h @ [Arr [Str s1, Str s2]]) = Inr h2"
    and f: "frame {dst} h h2" and pa: "pairs_above h2 dst (ps @ [(s1, s2)])"
    by blast
  from f Cons.prems(2,3) have v: "m \<subseteq>\<^sub>m lookup h2"
    by (auto intro: view_frame)
  from Cons.IH [OF r v Cons.prems(3) pa] obtain h' where
    "push_all_st dst ws h2 = (Inr (), h')" "frame {dst} h2 h'"
    "pairs_above h' dst ((ps @ [(s1, s2)]) @ map str_pair cs')"
    by blast
  with s p f cs sp show ?case
    by (auto intro: frame_trans)
qed

lemma for_of_push_ok:
  assumes "read_array m (read_coord m) src = Some cs" and "m \<subseteq>\<^sub>m lookup h" and "dst \<notin> dom m"
    and "pairs_above h dst ps"
  shows "\<exists>h'. for_of_push dst src h = (Inr (), h') \<and> frame {dst} h h'
           \<and> pairs_above h' dst (ps @ map str_pair cs)"
proof -
  from assms(1) obtain a ws where src: "src = Ref a" and m: "m a = Some (Arr ws)"
    and r: "read_all (read_coord m) ws = Some cs"
    by (cases src) (auto split: option.splits obj.splits)
  from view_lookup [OF assms(2) m] src have "iterate h src = Inr ws"
    by (simp add: iterate_def)
  with push_all_st_ok [OF r assms(2,3,4)] show ?thesis
    by (simp add: for_of_push_def)
qed

lemma pad_loop_st_ok:
  assumes "lookup h OOB = Some (Arr [Str s1, Str s2])" and "OOB \<noteq> dst"
    and "pairs_above h dst ps"
  shows "\<exists>h'. pad_loop_st n OOB dst h = (Inr (), h') \<and> frame {dst} h h'
           \<and> pairs_above h' dst (ps @ replicate (n - length ps) (s1, s2))"
  using assms
proof (induction n OOB dst h arbitrary: ps rule: pad_loop_st.induct)
  case (1 n OOB dst h)
  from pairs_above_length [OF "1.prems"(3)] obtain vs where
    l: "lookup h dst = Some (Arr vs)" and len: "length vs = length ps"
    by blast
  then have g: "get h (Ref dst) ''length'' = Inr (Num (int (length ps)))"
    by (simp add: get_Arr_length)
  show ?case
  proof (cases "length ps < n")
    case False
    with g "1.prems"(3) show ?thesis
      by (simp add: pad_loop_st.simps [of n OOB dst h] frame_refl)
  next
    case True
    have sl: "slice OOB h = Inr (length h, h @ [Arr [Str s1, Str s2]])"
      using "1.prems"(1) by (simp add: slice_def alloc_def)
    from pairs_above_push [OF "1.prems"(3), of s1 s2] obtain h2 where
      p: "push dst (Ref (length h)) (h @ [Arr [Str s1, Str s2]]) = Inr h2"
      and f: "frame {dst} h h2" and pa: "pairs_above h2 dst (ps @ [(s1, s2)])"
      by blast
    from f "1.prems"(1,2) have o: "lookup h2 OOB = Some (Arr [Str s1, Str s2])"
      by (auto intro: lookup_frame)
    have lt: "less_than (Num (int (length ps))) n"
      using True by simp
    from "1.IH" [OF g lt sl refl p o "1.prems"(2) pa] obtain h' where
      "pad_loop_st n OOB dst h2 = (Inr (), h')" "frame {dst} h2 h'"
      "pairs_above h' dst ((ps @ [(s1, s2)]) @ replicate (n - length (ps @ [(s1, s2)])) (s1, s2))"
      by blast
    moreover have "(ps @ [(s1, s2)]) @ replicate (n - length (ps @ [(s1, s2)])) (s1, s2)
        = ps @ replicate (n - length ps) (s1, s2)"
      using True by (simp add: replicate_append_same Suc_diff_Suc flip: replicate_Suc)
    ultimately show ?thesis
      using g lt sl p f by (auto simp: pad_loop_st.simps [of n OOB dst h] intro: frame_trans)
  qed
qed

lemma view_restrict_frame_new:
  assumes "frame W h h'" and "\<And>a. a \<in> W \<Longrightarrow> a \<in> S \<Longrightarrow> length h \<le> a"
  shows "lookup h |` S \<subseteq>\<^sub>m lookup h' |` S"
  unfolding map_le_def
proof
  fix a
  assume "a \<in> dom (lookup h |` S)"
  then have s: "a \<in> S" and l: "a < length h"
    by (auto simp: restrict_map_def lookup_def dom_def split: if_splits)
  with assms(2) have "a \<notin> W"
    by (meson not_less)
  with assms(1) l have "lookup h' a = lookup h a"
    by (auto simp: frame_def lookup_def)
  with s show "(lookup h |` S) a = (lookup h' |` S) a"
    by simp
qed

lemma fill_st_ok:
  assumes "m \<subseteq>\<^sub>m lookup h" and "m a = Some (Obj fs)"
    and "read_opt (read_array m (read_coord m)) (field fs k) = Some wso"
    and "m OOB = Some (Arr [Str s1, Str s2])"
  shows "\<exists>dst h'. fill_st (Ref a) k n OOB h = (Inr dst, h') \<and> frame {} h h'
           \<and> read_array (lookup h') (read_pair (lookup h')) (Ref dst)
               = Some (map str_pair (arr_or_empty wso)
                       @ replicate (n - length (arr_or_empty wso)) (s1, s2))"
proof -
  let ?dst = "length h"
  let ?h1 = "h @ [Arr []]"
  have dst: "?dst \<notin> dom m"
    using view_dom [OF assms(1)] by blast
  have f1: "frame {} h ?h1"
    by (simp add: frame_def nth_append)
  have v1: "m \<subseteq>\<^sub>m lookup ?h1"
    using f1 assms(1) by (rule view_frame) simp
  have g: "get ?h1 (Ref a) k = Inr (field fs k)"
    using view_lookup [OF v1 assms(2)] by (rule get_Obj)
  have e1: "pairs_above ?h1 ?dst []"
    by (rule pairs_above_empty) (simp add: lookup_def)
  have "\<exists>src h2 h3. or_empty (field fs k) ?h1 = (src, h2) \<and> frame {} ?h1 h2
      \<and> for_of_push ?dst src h2 = (Inr (), h3) \<and> frame {?dst} h2 h3
      \<and> pairs_above h3 ?dst (map str_pair (arr_or_empty wso))"
  proof (cases wso)
    case None
    with assms(3) have u: "field fs k = Undefined"
      by (cases "field fs k") auto
    let ?h2 = "?h1 @ [Arr []]"
    have "or_empty (field fs k) ?h1 = (Ref (length ?h1), ?h2)"
      by (simp add: u or_empty_def alloc_def)
    moreover have "frame {} ?h1 ?h2"
      by (simp add: frame_def nth_append)
    moreover have "for_of_push ?dst (Ref (length ?h1)) ?h2 = (Inr (), ?h2)"
      by (simp add: for_of_push_def iterate_def lookup_def nth_append)
    moreover have "pairs_above ?h2 ?dst []"
      by (rule pairs_above_empty) (simp add: lookup_def nth_append)
    ultimately show ?thesis
      using None by (auto simp: arr_or_empty_def frame_refl)
  next
    case (Some cs)
    with assms(3) have r: "read_array m (read_coord m) (field fs k) = Some cs"
      by (cases "field fs k") auto
    then have "truthy (field fs k)"
      by (cases "field fs k") auto
    then have "or_empty (field fs k) ?h1 = (field fs k, ?h1)"
      by (simp add: or_empty_def)
    with for_of_push_ok [OF r v1 dst e1] Some show ?thesis
      by (auto simp: arr_or_empty_def frame_refl)
  qed
  then obtain src h2 h3 where o: "or_empty (field fs k) ?h1 = (src, h2)" and f2: "frame {} ?h1 h2"
    and fo: "for_of_push ?dst src h2 = (Inr (), h3)" and f3: "frame {?dst} h2 h3"
    and p3: "pairs_above h3 ?dst (map str_pair (arr_or_empty wso))"
    by blast
  have "frame {?dst} ?h1 h2"
    using f2 by (rule frame_mono) simp
  then have f13: "frame {?dst} ?h1 h3"
    using f3 by (rule frame_trans)
  have v3: "m \<subseteq>\<^sub>m lookup h3"
    using f13 v1 dst by (auto intro: view_frame)
  have oob: "lookup h3 OOB = Some (Arr [Str s1, Str s2])"
    using v3 assms(4) by (rule view_lookup)
  have ne: "OOB \<noteq> ?dst"
    using dst assms(4) by auto
  from pad_loop_st_ok [OF oob ne p3, of n] obtain h4 where
    pl: "pad_loop_st n OOB ?dst h3 = (Inr (), h4)" and f4: "frame {?dst} h3 h4"
    and p4: "pairs_above h4 ?dst (map str_pair (arr_or_empty wso)
               @ replicate (n - length (arr_or_empty wso)) (s1, s2))"
    by auto
  have "frame {?dst} ?h1 h4"
    using f13 f4 by (rule frame_trans)
  with f1 have "frame {} h h4"
    by (rule frame_trans) simp
  moreover have "fill_st (Ref a) k n OOB h = (Inr ?dst, h4)"
    by (simp add: fill_st_def alloc_def g o fo pl)
  ultimately show ?thesis
    using pairs_above_read [OF p4] by blast
qed

lemma strs_push:
  assumes "read_array (lookup h) read_str (Ref a) = Some ss"
  shows "\<exists>h'. push a (Str s) h = Inr h' \<and> frame {a} h h'
           \<and> read_array (lookup h') read_str (Ref a) = Some (ss @ [s])"
proof -
  from assms obtain vs where l: "lookup h a = Some (Arr vs)" and r: "read_all read_str vs = Some ss"
    by (auto split: option.splits obj.splits)
  from l have a: "a < length h"
    by (simp add: lookup_Some)
  let ?h' = "h[a := Arr (vs @ [Str s])]"
  have "push a (Str s) h = Inr ?h'"
    using l by (simp add: push_def)
  moreover have "frame {a} h ?h'"
    by (simp add: frame_def)
  moreover have "read_array (lookup ?h') read_str (Ref a) = Some (ss @ [s])"
    using a r by (simp add: lookup_def read_all_append)
  ultimately show ?thesis by blast
qed

lemma strs_frame:
  assumes "read_array (lookup h) read_str (Ref a) = Some ss" and "frame W h h'" and "a \<notin> W"
  shows "read_array (lookup h') read_str (Ref a) = Some ss"
proof -
  from assms(1) obtain vs where l: "lookup h a = Some (Arr vs)" and r: "read_all read_str vs = Some ss"
    by (auto split: option.splits obj.splits)
  from lookup_frame [OF assms(2,3) l] r show ?thesis
    by simp
qed

lemma paths_above_frame:
  assumes "paths_above h a lo pss" and "frame W h h'" and "a \<notin> W"
    and "\<And>x. x \<in> W \<Longrightarrow> lo \<le> x \<Longrightarrow> length h \<le> x"
  shows "paths_above h' a lo pss"
proof -
  from assms(1) obtain vs where l: "lookup h a = Some (Arr vs)"
    and r: "read_all (read_array (lookup h |` {lo..}) (read_pair (lookup h |` {lo..}))) vs = Some pss"
    by (auto simp: paths_above_def)
  have le: "lookup h |` {lo..} \<subseteq>\<^sub>m lookup h' |` {lo..}"
    using assms(2) by (rule view_restrict_frame_new) (simp add: assms(4))
  from r have "read_all (read_array (lookup h' |` {lo..}) (read_pair (lookup h' |` {lo..}))) vs
      = Some pss"
    by (rule read_all_mono) (erule read_pairs_mono, rule le)
  with lookup_frame [OF assms(2,3) l] show ?thesis
    by (auto simp: paths_above_def)
qed

lemma paths_above_push:
  assumes "paths_above h a lo pss" and "a < lo" and "lo \<le> p" and "pairs_above h p ps"
  shows "\<exists>h'. push a (Ref p) h = Inr h' \<and> frame {a} h h' \<and> paths_above h' a lo (pss @ [ps])"
proof -
  from assms(1) obtain vs where l: "lookup h a = Some (Arr vs)"
    and r: "read_all (read_array (lookup h |` {lo..}) (read_pair (lookup h |` {lo..}))) vs = Some pss"
    by (auto simp: paths_above_def)
  from l have a: "a < length h"
    by (simp add: lookup_Some)
  let ?h' = "h[a := Arr (vs @ [Ref p])]"
  have p: "push a (Ref p) h = Inr ?h'"
    using l by (simp add: push_def)
  have f: "frame {a} h ?h'"
    by (simp add: frame_def)
  have le: "lookup h |` {lo..} \<subseteq>\<^sub>m lookup ?h' |` {lo..}"
    using f by (rule view_restrict_frame) (use assms(2) in simp)
  from r have old: "read_all (read_array (lookup ?h' |` {lo..}) (read_pair (lookup ?h' |` {lo..}))) vs
      = Some pss"
    by (rule read_all_mono) (erule read_pairs_mono, rule le)
  from assms(4) obtain us where lp: "lookup h p = Some (Arr us)"
    and rp: "read_all (read_pair (lookup h |` {Suc p..})) us = Some ps"
    by (auto simp: pairs_above_def)
  have "lookup h |` {Suc p..} \<subseteq>\<^sub>m lookup h |` {lo..}"
    by (rule view_restrict_le) (use assms(3) in auto)
  then have le': "lookup h |` {Suc p..} \<subseteq>\<^sub>m lookup ?h' |` {lo..}"
    using le by (rule map_le_trans)
  from rp have "read_all (read_pair (lookup ?h' |` {lo..})) us = Some ps"
    by (rule read_all_mono) (erule read_pair_mono, rule le')
  moreover have "(lookup ?h' |` {lo..}) p = Some (Arr us)"
    using lp assms(2,3) by (auto simp: lookup_def restrict_map_def split: if_splits)
  ultimately have new: "read_array (lookup ?h' |` {lo..}) (read_pair (lookup ?h' |` {lo..})) (Ref p)
      = Some ps"
    by simp
  have "lookup ?h' a = Some (Arr (vs @ [Ref p]))"
    using a by (simp add: lookup_def)
  with old new have "paths_above ?h' a lo (pss @ [ps])"
    by (auto simp: paths_above_def read_all_append)
  with p f show ?thesis by blast
qed

lemma paths_above_read:
  assumes "paths_above h a lo pss"
  shows "read_array (lookup h) (read_array (lookup h) (read_pair (lookup h))) (Ref a) = Some pss"
proof -
  from assms obtain vs where l: "lookup h a = Some (Arr vs)"
    and r: "read_all (read_array (lookup h |` {lo..}) (read_pair (lookup h |` {lo..}))) vs = Some pss"
    by (auto simp: paths_above_def)
  from r have "read_all (read_array (lookup h) (read_pair (lookup h))) vs = Some pss"
    by (rule read_all_mono) (erule read_pairs_mono, rule view_restrict_le_self)
  with l show ?thesis by simp
qed

subsection \<open>The barrel slots\<close>

lemma read_opt_None: "read_opt f v = Some None \<longleftrightarrow> v = Undefined"
  by (cases v) auto

lemma read_opt_Some: "read_opt f v = Some (Some x) \<longleftrightarrow> v \<noteq> Undefined \<and> f v = Some x"
  by (cases v) auto

lemma pairs_above_frame:
  assumes "pairs_above h p ps" and "frame W h h'" and "p \<notin> W"
    and "\<And>x. x \<in> W \<Longrightarrow> Suc p \<le> x \<Longrightarrow> length h \<le> x"
  shows "pairs_above h' p ps"
proof -
  from assms(1) obtain vs where l: "lookup h p = Some (Arr vs)"
    and r: "read_all (read_pair (lookup h |` {Suc p..})) vs = Some ps"
    by (auto simp: pairs_above_def)
  have le: "lookup h |` {Suc p..} \<subseteq>\<^sub>m lookup h' |` {Suc p..}"
    using assms(2) by (rule view_restrict_frame_new) (simp add: assms(4))
  from r have "read_all (read_pair (lookup h' |` {Suc p..})) vs = Some ps"
    by (rule read_all_mono) (erule read_pair_mono, rule le)
  with lookup_frame [OF assms(2,3) l] show ?thesis
    by (auto simp: pairs_above_def)
qed

lemma slot_path_ok:
  assumes "m \<subseteq>\<^sub>m lookup h" and "m ab = Some (Arr bvs)" and "read_all (read_barrel m) bvs = Some bs"
  shows "\<exists>pv. slot_path b (Ref ab) h = Inr pv
           \<and> read_opt (read_array m (read_coord m)) pv = Some (real_path bs b)"
proof -
  from view_lookup [OF assms(1,2)] have l: "lookup h ab = Some (Arr bvs)" .
  have len: "length bs = length bvs"
    using assms(3) by (rule read_all_length)
  show ?thesis
  proof (cases "b < length bvs")
    case False
    with l len show ?thesis
      by (simp add: slot_path_def get_Arr_length real_path_def)
  next
    case True
    from read_all_nth [OF assms(3) True] have rb: "read_barrel m (bvs ! b) = Some (bs ! b)" .
    then obtain c fs x where c: "bvs ! b = Ref c" and mc: "m c = Some (Obj fs)"
      and px: "read_opt (read_array m (read_coord m)) (field fs ''path'') = Some x"
      and bx: "bs ! b = \<lparr> path = x \<rparr>"
      by (cases "bvs ! b") (auto split: option.splits obj.splits)
    from bx have "path (bs ! b) = x"
      by simp
    with px have p: "read_opt (read_array m (read_coord m)) (field fs ''path'') = Some (path (bs ! b))"
      by simp
    from view_lookup [OF assms(1) mc] have "get h (Ref c) ''path'' = Inr (field fs ''path'')"
      by (rule get_Obj)
    with True l len c p show ?thesis
      by (simp add: slot_path_def get_Arr_length real_path_def get_index_def)
  qed
qed

lemma barrel_slot_st_ok:
  assumes m: "m \<subseteq>\<^sub>m lookup h" and nd: "bps \<notin> dom m" "bpl \<notin> dom m" and lt: "bps < bpl"
    and barrels: "m ab = Some (Arr bvs)" "read_all (read_barrel m) bvs = Some bs"
    and oob: "m OOB = Some (Arr [Str s1, Str s2])"
    and paths: "paths_above h bps (Suc bpl) pss"
    and lens: "read_array (lookup h) read_str (Ref bpl) = Some ls"
  shows "\<exists>h'. barrel_slot_st b (Ref ab) OOB bps bpl h = (Inr (), h') \<and> frame {bps, bpl} h h'
           \<and> paths_above h' bps (Suc bpl)
                (pss @ [case real_path bs b of
                          None \<Rightarrow> replicate 16 (s1, s2)
                        | Some rp \<Rightarrow> map str_pair rp @ replicate (16 - length rp) (s1, s2)])
           \<and> read_array (lookup h') read_str (Ref bpl)
               = Some (ls @ [case real_path bs b of
                               None \<Rightarrow> ''1'' | Some rp \<Rightarrow> js_String (int (length rp))])"
proof -
  let ?p = "length h"
  let ?h1 = "h @ [Arr []]"
  let ?len = "case real_path bs b of None \<Rightarrow> ''1'' | Some rp \<Rightarrow> js_String (int (length rp))"
  let ?steps = "case real_path bs b of None \<Rightarrow> [] | Some rp \<Rightarrow> map str_pair rp"
  from lens have bl: "bpl < length h"
    by (auto simp: lookup_Some split: option.splits)
  from paths have bp: "bps < length h"
    by (auto simp: paths_above_def lookup_Some)
  have pd: "?p \<notin> dom m"
    using view_dom [OF m] by blast
  have f1: "frame {} h ?h1"
    by (simp add: frame_def nth_append)
  have v1: "m \<subseteq>\<^sub>m lookup ?h1"
    using f1 m by (rule view_frame) simp
  from slot_path_ok [OF v1 barrels, of b] obtain pv where
    sp: "slot_path b (Ref ab) ?h1 = Inr pv"
    and pv: "read_opt (read_array m (read_coord m)) pv = Some (real_path bs b)"
    by blast
  have lens1: "read_array (lookup ?h1) read_str (Ref bpl) = Some ls"
    using lens f1 by (rule strs_frame) simp
  have e1: "pairs_above ?h1 ?p []"
    by (rule pairs_above_empty) (simp add: lookup_def)
  \<comment> \<open>the branch on the real path\<close>
  have "\<exists>h2 h3.
      (if truthy pv then
         (case get ?h1 pv ''length'' of
            Inl e \<Rightarrow> (Inl e, ?h1)
          | Inr l \<Rightarrow>
              (case push bpl (Str (to_String ?h1 l)) ?h1 of
                 Inl e \<Rightarrow> (Inl e, ?h1)
               | Inr h2 \<Rightarrow> for_of_push ?p pv h2))
       else
         (case push bpl (Str ''1'') ?h1 of
            Inl e \<Rightarrow> (Inl e, ?h1)
          | Inr h2 \<Rightarrow> (Inr (), h2))) = (Inr (), h3)
      \<and> frame {bpl} ?h1 h2 \<and> frame {?p} h2 h3
      \<and> read_array (lookup h2) read_str (Ref bpl) = Some (ls @ [?len])
      \<and> pairs_above h3 ?p ?steps"
  proof (cases "real_path bs b")
    case None
    with pv have u: "pv = Undefined"
      by (simp add: read_opt_None)
    from strs_push [OF lens1, of "''1''"] obtain h2 where
      "push bpl (Str ''1'') ?h1 = Inr h2" and f2: "frame {bpl} ?h1 h2"
      and "read_array (lookup h2) read_str (Ref bpl) = Some (ls @ [''1''])"
      by blast
    moreover from e1 f2 have "pairs_above h2 ?p []"
      by (rule pairs_above_frame) (use bl in auto)
    ultimately show ?thesis
      using None u by (auto simp: frame_refl)
  next
    case (Some rp)
    with pv have t: "pv \<noteq> Undefined" and r: "read_array m (read_coord m) pv = Some rp"
      by (simp_all add: read_opt_Some)
    from r obtain a vs where a: "pv = Ref a" and ma: "m a = Some (Arr vs)"
      and rv: "read_all (read_coord m) vs = Some rp"
      by (cases pv) (auto split: option.splits obj.splits)
    from read_all_length [OF rv] view_lookup [OF v1 ma] a
    have g: "get ?h1 pv ''length'' = Inr (Num (int (length rp)))"
      by (simp add: get_Arr_length)
    from strs_push [OF lens1, of "js_String (int (length rp))"] obtain h2 where
      p2: "push bpl (Str (js_String (int (length rp)))) ?h1 = Inr h2" and f2: "frame {bpl} ?h1 h2"
      and l2: "read_array (lookup h2) read_str (Ref bpl) = Some (ls @ [js_String (int (length rp))])"
      by blast
    have v2: "m \<subseteq>\<^sub>m lookup h2"
      using f2 v1 nd(2) by (auto intro: view_frame)
    from e1 f2 have e2: "pairs_above h2 ?p []"
      by (rule pairs_above_frame) (use bl in auto)
    from for_of_push_ok [OF r v2 pd e2] obtain h3 where
      "for_of_push ?p pv h2 = (Inr (), h3)" "frame {?p} h2 h3" "pairs_above h3 ?p (map str_pair rp)"
      by auto
    with Some a g p2 f2 l2 show ?thesis
      by (auto simp: to_String_Num)
  qed
  then obtain h2 h3 where
    br: "(if truthy pv then
         (case get ?h1 pv ''length'' of
            Inl e \<Rightarrow> (Inl e, ?h1)
          | Inr l \<Rightarrow>
              (case push bpl (Str (to_String ?h1 l)) ?h1 of
                 Inl e \<Rightarrow> (Inl e, ?h1)
               | Inr h2 \<Rightarrow> for_of_push ?p pv h2))
       else
         (case push bpl (Str ''1'') ?h1 of
            Inl e \<Rightarrow> (Inl e, ?h1)
          | Inr h2 \<Rightarrow> (Inr (), h2))) = (Inr (), h3)"
    and f2: "frame {bpl} ?h1 h2" and f3: "frame {?p} h2 h3"
    and l2: "read_array (lookup h2) read_str (Ref bpl) = Some (ls @ [?len])"
    and p3: "pairs_above h3 ?p ?steps"
    by blast
  \<comment> \<open>padding the path\<close>
  have f13: "frame {bpl, ?p} ?h1 h3"
    using frame_mono [OF f2, of "{bpl, ?p}"] frame_mono [OF f3, of "{bpl, ?p}"]
    by (auto intro: frame_trans)
  have v3: "m \<subseteq>\<^sub>m lookup h3"
    using f13 v1 nd(2) pd by (auto intro: view_frame)
  have o3: "lookup h3 OOB = Some (Arr [Str s1, Str s2])"
    using v3 oob by (rule view_lookup)
  have ne: "OOB \<noteq> ?p"
    using pd oob by auto
  from pad_loop_st_ok [OF o3 ne p3, of 16] obtain h4 where
    pl: "pad_loop_st 16 OOB ?p h3 = (Inr (), h4)" and f4: "frame {?p} h3 h4"
    and p4: "pairs_above h4 ?p (?steps @ replicate (16 - length ?steps) (s1, s2))"
    by auto
  have f14: "frame {bpl, ?p} ?h1 h4"
    using f13 frame_mono [OF f4, of "{bpl, ?p}"] by (auto intro: frame_trans)
  have f04: "frame {bpl} h h4"
    using frame_mono [OF f1, of "{bpl}"] f14 by (rule frame_trans) auto
  \<comment> \<open>the path joins the paths\<close>
  have "frame {bpl, ?p} h h4"
    using frame_mono [OF f1, of "{bpl, ?p}"] f14 by (rule frame_trans) auto
  with paths have paths4: "paths_above h4 bps (Suc bpl) pss"
    by (rule paths_above_frame) (use lt bp in auto)
  have "Suc bpl \<le> ?p"
    using bl by simp
  from paths_above_push [OF paths4 _ this p4] lt obtain h5 where
    p5: "push bps (Ref ?p) h4 = Inr h5" and f5: "frame {bps} h4 h5"
    and paths5: "paths_above h5 bps (Suc bpl) (pss @ [?steps @ replicate (16 - length ?steps) (s1, s2)])"
    by auto
  have "read_array (lookup h3) read_str (Ref bpl) = Some (ls @ [?len])"
    using l2 f3 by (rule strs_frame) (use bl in simp)
  then have "read_array (lookup h4) read_str (Ref bpl) = Some (ls @ [?len])"
    using f4 by (rule strs_frame) (use bl in simp)
  then have lens5: "read_array (lookup h5) read_str (Ref bpl) = Some (ls @ [?len])"
    using f5 by (rule strs_frame) (use lt in simp)
  have f05: "frame {bps, bpl} h h5"
    using frame_mono [OF f04, of "{bps, bpl}"] frame_mono [OF f5, of "{bps, bpl}"]
    by (auto intro: frame_trans)
  have run: "barrel_slot_st b (Ref ab) OOB bps bpl h = (Inr (), h5)"
    unfolding barrel_slot_st_def by (simp add: alloc_def sp br pl p5)
  have eq: "?steps @ replicate (16 - length ?steps) (s1, s2)
      = (case real_path bs b of
           None \<Rightarrow> replicate 16 (s1, s2)
         | Some rp \<Rightarrow> map str_pair rp @ replicate (16 - length rp) (s1, s2))"
    by (simp split: option.splits)
  from run f05 paths5 lens5 show ?thesis
    unfolding eq by blast
qed

lemma barrel_loop_st_step:
  assumes "b < 2" and "barrel_slot_st b barrels OOB bps bpl h = (Inr (), h1)"
  shows "barrel_loop_st b barrels OOB bps bpl h = barrel_loop_st (Suc b) barrels OOB bps bpl h1"
  using assms by (subst barrel_loop_st.simps) simp

lemma barrel_loop_st_stop: "\<not> b < 2 \<Longrightarrow> barrel_loop_st b barrels OOB bps bpl h = (Inr (), h)"
  by (subst barrel_loop_st.simps) simp

lemma barrel_loop_st_ok:
  assumes m: "m \<subseteq>\<^sub>m lookup h" and nd: "bps \<notin> dom m" "bpl \<notin> dom m" and lt: "bps < bpl"
    and barrels: "m ab = Some (Arr bvs)" "read_all (read_barrel m) bvs = Some bs"
    and oob: "m OOB = Some (Arr [Str s1, Str s2])"
    and paths: "paths_above h bps (Suc bpl) []"
    and lens: "read_array (lookup h) read_str (Ref bpl) = Some []"
  shows "\<exists>h'. barrel_loop_st 0 (Ref ab) OOB bps bpl h = (Inr (), h') \<and> frame {bps, bpl} h h'
           \<and> read_array (lookup h') (read_array (lookup h') (read_pair (lookup h'))) (Ref bps)
               = Some [case real_path bs 0 of
                         None \<Rightarrow> replicate 16 (s1, s2)
                       | Some rp \<Rightarrow> map str_pair rp @ replicate (16 - length rp) (s1, s2),
                       case real_path bs 1 of
                         None \<Rightarrow> replicate 16 (s1, s2)
                       | Some rp \<Rightarrow> map str_pair rp @ replicate (16 - length rp) (s1, s2)]
           \<and> read_array (lookup h') read_str (Ref bpl)
               = Some [case real_path bs 0 of
                         None \<Rightarrow> ''1'' | Some rp \<Rightarrow> js_String (int (length rp)),
                       case real_path bs 1 of
                         None \<Rightarrow> ''1'' | Some rp \<Rightarrow> js_String (int (length rp))]"
proof -
  from barrel_slot_st_ok [OF m nd lt barrels oob paths lens, of 0] obtain h1 where
    s0: "barrel_slot_st 0 (Ref ab) OOB bps bpl h = (Inr (), h1)" and f1: "frame {bps, bpl} h h1"
    and p1: "paths_above h1 bps (Suc bpl)
        ([] @ [case real_path bs 0 of
                 None \<Rightarrow> replicate 16 (s1, s2)
               | Some rp \<Rightarrow> map str_pair rp @ replicate (16 - length rp) (s1, s2)])"
    and l1: "read_array (lookup h1) read_str (Ref bpl)
        = Some ([] @ [case real_path bs 0 of
                        None \<Rightarrow> ''1'' | Some rp \<Rightarrow> js_String (int (length rp))])"
    by blast
  have m1: "m \<subseteq>\<^sub>m lookup h1"
    using f1 m nd by (auto intro: view_frame)
  from barrel_slot_st_ok [OF m1 nd lt barrels oob p1 l1, of 1] obtain h2 where
    s1: "barrel_slot_st 1 (Ref ab) OOB bps bpl h1 = (Inr (), h2)" and f2: "frame {bps, bpl} h1 h2"
    and p2: "paths_above h2 bps (Suc bpl)
        [case real_path bs 0 of
           None \<Rightarrow> replicate 16 (s1, s2)
         | Some rp \<Rightarrow> map str_pair rp @ replicate (16 - length rp) (s1, s2),
         case real_path bs 1 of
           None \<Rightarrow> replicate 16 (s1, s2)
         | Some rp \<Rightarrow> map str_pair rp @ replicate (16 - length rp) (s1, s2)]"
    and l2: "read_array (lookup h2) read_str (Ref bpl)
        = Some [case real_path bs 0 of
                  None \<Rightarrow> ''1'' | Some rp \<Rightarrow> js_String (int (length rp)),
                case real_path bs 1 of
                  None \<Rightarrow> ''1'' | Some rp \<Rightarrow> js_String (int (length rp))]"
    by auto
  have "barrel_loop_st 0 (Ref ab) OOB bps bpl h = barrel_loop_st (Suc 0) (Ref ab) OOB bps bpl h1"
    using s0 by (rule barrel_loop_st_step [rotated]) simp
  also have "\<dots> = barrel_loop_st (Suc (Suc 0)) (Ref ab) OOB bps bpl h2"
    using s1 by (intro barrel_loop_st_step) simp_all
  also have "\<dots> = (Inr (), h2)"
    by (rule barrel_loop_st_stop) simp
  finally have "barrel_loop_st 0 (Ref ab) OOB bps bpl h = (Inr (), h2)" .
  moreover from f1 f2 have "frame {bps, bpl} h h2"
    by (rule frame_trans)
  ultimately show ?thesis
    using paths_above_read [OF p2] l2 by blast
qed

subsection \<open>The moves and the four positions\<close>

lemma map_String_ok:
  assumes "read_array (lookup h) read_num mv = Some ms"
  shows "map_String mv h = (Inr (length h), h @ [Arr (map (\<lambda>n. Str (js_String n)) ms)])"
proof -
  from assms obtain a vs where mv: "mv = Ref a" and l: "lookup h a = Some (Arr vs)"
    and r: "read_all read_num vs = Some ms"
    by (cases mv) (auto split: option.splits obj.splits)
  from r have "map (\<lambda>v. Str (to_String h v)) vs = map (\<lambda>n. Str (js_String n)) ms"
  proof (induction vs arbitrary: ms)
    case Nil
    then show ?case by simp
  next
    case (Cons v vs)
    then show ?case
      by (cases v) (auto split: option.splits simp: to_String_Num)
  qed
  with mv l show ?thesis
    by (simp add: map_String_def alloc_def)
qed

lemma strs_map: "read_all read_str (map (\<lambda>n. Str (f n)) ms) = Some (map f ms)"
  by (induction ms) auto

lemma deref_pair_st_ok:
  assumes "m \<subseteq>\<^sub>m lookup h" and "m a = Some (Obj fs)"
    and "read_opt (read_coord m) (field fs k) = Some co"
  shows "case deref_pair co of
           Inl e \<Rightarrow> deref_pair_st (Ref a) k h = (Inl e, h)
         | Inr (s1, s2) \<Rightarrow> deref_pair_st (Ref a) k h = (Inr (length h), h @ [Arr [Str s1, Str s2]])"
proof -
  have g: "get h (Ref a) k = Inr (field fs k)"
    using view_lookup [OF assms(1,2)] by (rule get_Obj)
  show ?thesis
  proof (cases co)
    case None
    with assms(3) have "field fs k = Undefined"
      by (simp add: read_opt_None)
    with None g show ?thesis
      by (simp add: deref_pair_def deref_pair_st_def str_pair_st_def get_def)
  next
    case (Some c)
    with assms(3) have "read_coord m (field fs k) = Some c"
      by (simp add: read_opt_Some)
    from str_pair_st_coord [OF this assms(1)] Some g show ?thesis
      by (simp add: deref_pair_def deref_pair_st_def split: prod.splits)
  qed
qed

lemma resolve_dimension:
  assumes "read_opt read_num v = Some d"
  shows "to_String h (if truthy v then v else Num n) = js_String (num_or d n)"
  using assms by (cases v) (auto simp: to_String_Num num_or_def)

subsection \<open>The whole run\<close>

lemma build_scalars:
  assumes "buildCircuitInput ms p t = Inr ci"
  shows "deref_pair (knight_a_start p) = Inr (ci_knight_a_start ci)"
    and "deref_pair (knight_b_start p) = Inr (ci_knight_b_start ci)"
    and "deref_pair (goal_a p) = Inr (ci_goal_a ci)"
    and "deref_pair (goal_b p) = Inr (ci_goal_b ci)"
    and "ci_tick_count ci = js_String t"
    and "ci_puzzle_id ci = js_String (puzzle_id p)"
    and "ci_moves ci = map js_String ms"
  using assms
  by (auto simp: buildCircuitInput_def Let_def split: sum.splits prod.splits)

lemma build_Inl:
  assumes "buildCircuitInput ms p t = Inl e"
  shows "deref_pair (knight_a_start p) = Inl e
       \<or> (\<exists>ka. deref_pair (knight_a_start p) = Inr ka \<and>
            (deref_pair (knight_b_start p) = Inl e
             \<or> (\<exists>kb. deref_pair (knight_b_start p) = Inr kb \<and>
                  (deref_pair (goal_a p) = Inl e
                   \<or> (\<exists>ga. deref_pair (goal_a p) = Inr ga \<and> deref_pair (goal_b p) = Inl e)))))"
  using assms
  by (auto simp: buildCircuitInput_def Let_def split: sum.splits prod.splits)

lemma frame_append: "frame W h (h @ hs)"
  by (simp add: frame_def nth_append)

lemma frame_empty_trans: "frame {} h h1 \<Longrightarrow> frame {} h1 h2 \<Longrightarrow> frame {} h h2"
  using frame_trans [of "{}" h h1 "{}" h2] by simp

text \<open>
  The arrays that the run builds before it reads the four positions: the stores it goes
  through, and what the arrays hold.
\<close>

lemma run_arrays:
  assumes la: "lookup h0 a = Some (Obj fs)"
    and pz: "puzzle_at (lookup h0) (Ref a) p"
    and mv: "read_array (lookup h0) read_num moves = Some ms"
  defines "s1 \<equiv> js_String (num_or (grid_width p) 11)"
    and "s2 \<equiv> js_String (num_or (grid_height p) 7)"
  shows "\<exists>wd h2 td h3 barrels h4 h7.
      fill_st (Ref a) ''walls'' 26 (length h0) (h0 @ [Arr [Str s1, Str s2]]) = (Inr wd, h2)
    \<and> fill_st (Ref a) ''static_tnt'' 8 (length h0) h2 = (Inr td, h3)
    \<and> get h3 (Ref a) ''moving_barrels'' = Inr (field fs ''moving_barrels'')
    \<and> or_empty (field fs ''moving_barrels'') h3 = (barrels, h4)
    \<and> barrel_loop_st 0 barrels (length h0) (length h4) (Suc (length h4)) (h4 @ [Arr [], Arr []])
        = (Inr (), h7)
    \<and> frame {} h0 h7
    \<and> read_array (lookup h7) (read_pair (lookup h7)) (Ref wd)
        = Some (map str_pair (arr_or_empty (walls p))
                @ replicate (26 - length (arr_or_empty (walls p))) (s1, s2))
    \<and> read_array (lookup h7) (read_pair (lookup h7)) (Ref td)
        = Some (map str_pair (arr_or_empty (static_tnt p))
                @ replicate (8 - length (arr_or_empty (static_tnt p))) (s1, s2))
    \<and> read_array (lookup h7) (read_array (lookup h7) (read_pair (lookup h7))) (Ref (length h4))
        = Some [case real_path (arr_or_empty (moving_barrels p)) 0 of
                  None \<Rightarrow> replicate 16 (s1, s2)
                | Some rp \<Rightarrow> map str_pair rp @ replicate (16 - length rp) (s1, s2),
                case real_path (arr_or_empty (moving_barrels p)) 1 of
                  None \<Rightarrow> replicate 16 (s1, s2)
                | Some rp \<Rightarrow> map str_pair rp @ replicate (16 - length rp) (s1, s2)]
    \<and> read_array (lookup h7) read_str (Ref (Suc (length h4)))
        = Some [case real_path (arr_or_empty (moving_barrels p)) 0 of
                  None \<Rightarrow> ''1'' | Some rp \<Rightarrow> js_String (int (length rp)),
                case real_path (arr_or_empty (moving_barrels p)) 1 of
                  None \<Rightarrow> ''1'' | Some rp \<Rightarrow> js_String (int (length rp))]"
proof -
  let ?OOB = "length h0"
  let ?h1 = "h0 @ [Arr [Str s1, Str s2]]"
  from pz la have
    walls: "read_opt (read_array (lookup h0) (read_coord (lookup h0))) (field fs ''walls'') = Some (walls p)"
    and tnt: "read_opt (read_array (lookup h0) (read_coord (lookup h0))) (field fs ''static_tnt'')
        = Some (static_tnt p)"
    and mb: "read_opt (read_array (lookup h0) (read_barrel (lookup h0))) (field fs ''moving_barrels'')
        = Some (moving_barrels p)"
    by simp_all
  have f1: "frame {} h0 ?h1"
    by (rule frame_append)
  \<comment> \<open>what every later store keeps\<close>
  have keep: "lookup h a = Some (Obj fs)
      \<and> lookup h ?OOB = Some (Arr [Str s1, Str s2])
      \<and> read_opt (read_array (lookup h) (read_coord (lookup h))) (field fs ''walls'') = Some (walls p)
      \<and> read_opt (read_array (lookup h) (read_coord (lookup h))) (field fs ''static_tnt'')
          = Some (static_tnt p)
      \<and> read_opt (read_array (lookup h) (read_barrel (lookup h))) (field fs ''moving_barrels'')
          = Some (moving_barrels p)"
    if "frame {} ?h1 h" for h
  proof -
    from that have le1: "lookup ?h1 \<subseteq>\<^sub>m lookup h"
      by (rule view_frame_empty)
    from f1 that have "frame {} h0 h"
      by (rule frame_empty_trans)
    then have le0: "lookup h0 \<subseteq>\<^sub>m lookup h"
      by (rule view_frame_empty)
    have "lookup ?h1 ?OOB = Some (Arr [Str s1, Str s2])"
      by (simp add: lookup_def)
    with le1 have "lookup h ?OOB = Some (Arr [Str s1, Str s2])"
      by (rule view_lookup)
    moreover from le0 la have "lookup h a = Some (Obj fs)"
      by (rule view_lookup)
    moreover from walls
    have "read_opt (read_array (lookup h) (read_coord (lookup h))) (field fs ''walls'') = Some (walls p)"
      by (rule read_opt_mono) (rule read_coords_mono [OF _ le0])
    moreover from tnt
    have "read_opt (read_array (lookup h) (read_coord (lookup h))) (field fs ''static_tnt'')
        = Some (static_tnt p)"
      by (rule read_opt_mono) (rule read_coords_mono [OF _ le0])
    moreover from mb
    have "read_opt (read_array (lookup h) (read_barrel (lookup h))) (field fs ''moving_barrels'')
        = Some (moving_barrels p)"
      by (rule read_opt_mono) (erule read_array_mono [OF _ le0], rule read_barrel_mono [OF _ le0])
    ultimately show ?thesis by blast
  qed
  \<comment> \<open>the walls\<close>
  note k1 = keep [OF frame_refl]
  from fill_st_ok [OF map_le_refl, of ?h1 a fs "''walls''" "walls p" ?OOB s1 s2 26] k1
  obtain wd h2 where
    w: "fill_st (Ref a) ''walls'' 26 ?OOB ?h1 = (Inr wd, h2)" and f2: "frame {} ?h1 h2"
    and rw: "read_array (lookup h2) (read_pair (lookup h2)) (Ref wd)
        = Some (map str_pair (arr_or_empty (walls p))
                @ replicate (26 - length (arr_or_empty (walls p))) (s1, s2))"
    by blast
  \<comment> \<open>the static TNT\<close>
  note k2 = keep [OF f2]
  from fill_st_ok [OF map_le_refl, of h2 a fs "''static_tnt''" "static_tnt p" ?OOB s1 s2 8] k2
  obtain td h3 where
    t: "fill_st (Ref a) ''static_tnt'' 8 ?OOB h2 = (Inr td, h3)" and f3: "frame {} h2 h3"
    and rt: "read_array (lookup h3) (read_pair (lookup h3)) (Ref td)
        = Some (map str_pair (arr_or_empty (static_tnt p))
                @ replicate (8 - length (arr_or_empty (static_tnt p))) (s1, s2))"
    by blast
  have f13: "frame {} ?h1 h3"
    using f2 f3 by (rule frame_empty_trans)
  note k3 = keep [OF f13]
  \<comment> \<open>the barrels of the puzzle, or a new empty array\<close>
  have "\<exists>ab bvs h4. or_empty (field fs ''moving_barrels'') h3 = (Ref ab, h4) \<and> frame {} h3 h4
      \<and> lookup h4 ab = Some (Arr bvs)
      \<and> read_all (read_barrel (lookup h4)) bvs = Some (arr_or_empty (moving_barrels p))"
  proof (cases "moving_barrels p")
    case None
    with k3 have "field fs ''moving_barrels'' = Undefined"
      by (simp add: read_opt_None)
    then have "or_empty (field fs ''moving_barrels'') h3 = (Ref (length h3), h3 @ [Arr []])"
      by (simp add: or_empty_def alloc_def)
    moreover have "lookup (h3 @ [Arr []]) (length h3) = Some (Arr [])"
      by (simp add: lookup_def)
    ultimately show ?thesis
      using None by (auto simp: arr_or_empty_def frame_append)
  next
    case (Some bs)
    with k3 have u: "field fs ''moving_barrels'' \<noteq> Undefined"
      and r: "read_array (lookup h3) (read_barrel (lookup h3)) (field fs ''moving_barrels'') = Some bs"
      by (simp_all add: read_opt_Some)
    from r obtain ab bvs where "field fs ''moving_barrels'' = Ref ab"
      "lookup h3 ab = Some (Arr bvs)" "read_all (read_barrel (lookup h3)) bvs = Some bs"
      by (cases "field fs ''moving_barrels''") (auto split: option.splits obj.splits)
    with Some show ?thesis
      by (auto simp: or_empty_def arr_or_empty_def frame_refl)
  qed
  then obtain ab bvs h4 where
    o: "or_empty (field fs ''moving_barrels'') h3 = (Ref ab, h4)" and f4: "frame {} h3 h4"
    and lb: "lookup h4 ab = Some (Arr bvs)"
    and rb: "read_all (read_barrel (lookup h4)) bvs = Some (arr_or_empty (moving_barrels p))"
    by blast
  have f14: "frame {} ?h1 h4"
    using f13 f4 by (rule frame_empty_trans)
  note k4 = keep [OF f14]
  \<comment> \<open>the two barrel slots\<close>
  let ?bps = "length h4"
  let ?bpl = "Suc (length h4)"
  let ?h6 = "h4 @ [Arr [], Arr []]"
  have f6: "frame {} h4 ?h6"
    by (rule frame_append)
  have m6: "lookup h4 \<subseteq>\<^sub>m lookup ?h6"
    using f6 by (rule view_frame_empty)
  have nd: "?bps \<notin> dom (lookup h4)" "?bpl \<notin> dom (lookup h4)"
    by (auto simp: lookup_def dom_def)
  have p6: "paths_above ?h6 ?bps (Suc ?bpl) []"
    by (simp add: paths_above_def lookup_def nth_append)
  have l6: "read_array (lookup ?h6) read_str (Ref ?bpl) = Some []"
    by (simp add: lookup_def nth_append)
  from k4 have oob4: "lookup h4 ?OOB = Some (Arr [Str s1, Str s2])"
    by blast
  from barrel_loop_st_ok [OF m6 nd _ lb rb oob4 p6 l6] obtain h7 where
    bl: "barrel_loop_st 0 (Ref ab) ?OOB ?bps ?bpl ?h6 = (Inr (), h7)"
    and f7: "frame {?bps, ?bpl} ?h6 h7"
    and rp: "read_array (lookup h7) (read_array (lookup h7) (read_pair (lookup h7))) (Ref ?bps)
        = Some [case real_path (arr_or_empty (moving_barrels p)) 0 of
                  None \<Rightarrow> replicate 16 (s1, s2)
                | Some rp \<Rightarrow> map str_pair rp @ replicate (16 - length rp) (s1, s2),
                case real_path (arr_or_empty (moving_barrels p)) 1 of
                  None \<Rightarrow> replicate 16 (s1, s2)
                | Some rp \<Rightarrow> map str_pair rp @ replicate (16 - length rp) (s1, s2)]"
    and rl: "read_array (lookup h7) read_str (Ref ?bpl)
        = Some [case real_path (arr_or_empty (moving_barrels p)) 0 of
                  None \<Rightarrow> ''1'' | Some rp \<Rightarrow> js_String (int (length rp)),
                case real_path (arr_or_empty (moving_barrels p)) 1 of
                  None \<Rightarrow> ''1'' | Some rp \<Rightarrow> js_String (int (length rp))]"
    by auto
  have f47: "frame {} h4 h7"
    using f6 f7 by (rule frame_trans) simp
  have f37: "frame {} h3 h7"
    using f4 f47 by (rule frame_empty_trans)
  have f27: "frame {} h2 h7"
    using f3 f37 by (rule frame_empty_trans)
  have f07: "frame {} h0 h7"
    using f1 frame_empty_trans [OF f2 f27] by (rule frame_empty_trans)
  from rw have rw7: "read_array (lookup h7) (read_pair (lookup h7)) (Ref wd)
        = Some (map str_pair (arr_or_empty (walls p))
                @ replicate (26 - length (arr_or_empty (walls p))) (s1, s2))"
    by (rule read_pairs_mono) (rule view_frame_empty [OF f27])
  from rt have rt7: "read_array (lookup h7) (read_pair (lookup h7)) (Ref td)
        = Some (map str_pair (arr_or_empty (static_tnt p))
                @ replicate (8 - length (arr_or_empty (static_tnt p))) (s1, s2))"
    by (rule read_pairs_mono) (rule view_frame_empty [OF f37])
  from k3 have g3: "get h3 (Ref a) ''moving_barrels'' = Inr (field fs ''moving_barrels'')"
    by (simp add: get_Obj)
  from w t g3 o bl f07 rw7 rt7 rp rl show ?thesis
    by blast
qed

text \<open>
  When the store holds a puzzle and an array of moves, the run returns what the normaliser
  computes from them: the same error, or a new object that holds the circuit input.
\<close>

lemma buildCircuitInput_st_refines:
  assumes pz: "puzzle_at (lookup h0) pv p"
    and mv: "read_array (lookup h0) read_num moves = Some ms"
  shows "\<exists>r h'. buildCircuitInput_st moves pv (Num t) h0 = (r, h')
           \<and> (case buildCircuitInput ms p t of
                 Inl e \<Rightarrow> r = Inl e
               | Inr ci \<Rightarrow> \<exists>v. r = Inr v \<and> input_at (lookup h') v ci)"
proof -
  define s1 where "s1 = js_String (num_or (grid_width p) 11)"
  define s2 where "s2 = js_String (num_or (grid_height p) 7)"
  from pz obtain a fs where pv: "pv = Ref a" and la: "lookup h0 a = Some (Obj fs)"
    by (cases pv) (auto split: option.splits obj.splits)
  from pz pv la have
    gw: "read_opt read_num (field fs ''grid_width'') = Some (grid_width p)"
    and gh: "read_opt read_num (field fs ''grid_height'') = Some (grid_height p)"
    and ka: "read_opt (read_coord (lookup h0)) (field fs ''knight_a_start'') = Some (knight_a_start p)"
    and kb: "read_opt (read_coord (lookup h0)) (field fs ''knight_b_start'') = Some (knight_b_start p)"
    and ga: "read_opt (read_coord (lookup h0)) (field fs ''goal_a'') = Some (goal_a p)"
    and gb: "read_opt (read_coord (lookup h0)) (field fs ''goal_b'') = Some (goal_b p)"
    and pid: "field fs ''id'' = Num (puzzle_id p)"
    by (auto elim: read_num.elims)
  have g0: "get h0 (Ref a) k = Inr (field fs k)" for k
    using la by (rule get_Obj)
  have d1: "to_String h (if truthy (field fs ''grid_width'') then field fs ''grid_width'' else Num 11) = s1"
    and d2: "to_String h (if truthy (field fs ''grid_height'') then field fs ''grid_height'' else Num 7) = s2"
    for h
    unfolding s1_def s2_def by (rule resolve_dimension [OF gw], rule resolve_dimension [OF gh])
  from run_arrays [OF la pz [unfolded pv] mv] obtain wd h2 td h3 barrels h4 h7 where
    w: "fill_st (Ref a) ''walls'' 26 (length h0) (h0 @ [Arr [Str s1, Str s2]]) = (Inr wd, h2)"
    and t: "fill_st (Ref a) ''static_tnt'' 8 (length h0) h2 = (Inr td, h3)"
    and g3: "get h3 (Ref a) ''moving_barrels'' = Inr (field fs ''moving_barrels'')"
    and o: "or_empty (field fs ''moving_barrels'') h3 = (barrels, h4)"
    and bl: "barrel_loop_st 0 barrels (length h0) (length h4) (Suc (length h4)) (h4 @ [Arr [], Arr []])
        = (Inr (), h7)"
    and f7: "frame {} h0 h7"
    and rw: "read_array (lookup h7) (read_pair (lookup h7)) (Ref wd)
        = Some (map str_pair (arr_or_empty (walls p))
                @ replicate (26 - length (arr_or_empty (walls p))) (s1, s2))"
    and rt: "read_array (lookup h7) (read_pair (lookup h7)) (Ref td)
        = Some (map str_pair (arr_or_empty (static_tnt p))
                @ replicate (8 - length (arr_or_empty (static_tnt p))) (s1, s2))"
    and rp: "read_array (lookup h7) (read_array (lookup h7) (read_pair (lookup h7))) (Ref (length h4))
        = Some [case real_path (arr_or_empty (moving_barrels p)) 0 of
                  None \<Rightarrow> replicate 16 (s1, s2)
                | Some rp \<Rightarrow> map str_pair rp @ replicate (16 - length rp) (s1, s2),
                case real_path (arr_or_empty (moving_barrels p)) 1 of
                  None \<Rightarrow> replicate 16 (s1, s2)
                | Some rp \<Rightarrow> map str_pair rp @ replicate (16 - length rp) (s1, s2)]"
    and rl: "read_array (lookup h7) read_str (Ref (Suc (length h4)))
        = Some [case real_path (arr_or_empty (moving_barrels p)) 0 of
                  None \<Rightarrow> ''1'' | Some rp \<Rightarrow> js_String (int (length rp)),
                case real_path (arr_or_empty (moving_barrels p)) 1 of
                  None \<Rightarrow> ''1'' | Some rp \<Rightarrow> js_String (int (length rp))]"
    unfolding s1_def s2_def by blast
  have le7: "lookup h0 \<subseteq>\<^sub>m lookup h7"
    using f7 by (rule view_frame_empty)
  \<comment> \<open>the moves\<close>
  from mv le7 have "read_array (lookup h7) read_num moves = Some ms"
    by (rule read_array_mono)
  then have ms: "map_String moves h7 = (Inr (length h7), h7 @ [Arr (map (\<lambda>n. Str (js_String n)) ms)])"
    by (rule map_String_ok)
  \<comment> \<open>the stores after the moves extend \<open>h7\<close>\<close>
  have le: "lookup h0 \<subseteq>\<^sub>m lookup (h7 @ hs)" for hs
    using le7 view_frame_empty [OF frame_append] by (rule map_le_trans)
  have gk: "get (h7 @ hs) (Ref a) k = Inr (field fs k)" for hs k
    using view_lookup [OF le la] by (rule get_Obj)
  note da = deref_pair_st_ok [OF le la ka]
    and db = deref_pair_st_ok [OF le la kb]
    and dc = deref_pair_st_ok [OF le la ga]
    and dd = deref_pair_st_ok [OF le la gb]
  \<comment> \<open>the run up to the four positions\<close>
  let ?h8 = "h7 @ [Arr (map (\<lambda>n. Str (js_String n)) ms)]"
  have run: "buildCircuitInput_st moves pv (Num t) h0 =
     (case deref_pair_st (Ref a) ''knight_a_start'' ?h8 of
        (Inl e, h9) \<Rightarrow> (Inl e, h9) | (Inr ka, h9) \<Rightarrow>
     (case deref_pair_st (Ref a) ''knight_b_start'' h9 of
        (Inl e, h10) \<Rightarrow> (Inl e, h10) | (Inr kb, h10) \<Rightarrow>
     (case deref_pair_st (Ref a) ''goal_a'' h10 of
        (Inl e, h11) \<Rightarrow> (Inl e, h11) | (Inr ga, h11) \<Rightarrow>
     (case deref_pair_st (Ref a) ''goal_b'' h11 of
        (Inl e, h12) \<Rightarrow> (Inl e, h12) | (Inr gb, h12) \<Rightarrow>
     (case get h12 (Ref a) ''id'' of Inl e \<Rightarrow> (Inl e, h12) | Inr pid \<Rightarrow>
     (case alloc
        (Obj [(''grid_width'',
               Str (to_String ?h8
                 (if truthy (field fs ''grid_width'') then field fs ''grid_width'' else Num 11))),
              (''grid_height'',
               Str (to_String ?h8
                 (if truthy (field fs ''grid_height'') then field fs ''grid_height'' else Num 7))),
              (''knight_a_start'', Ref ka),
              (''knight_b_start'', Ref kb),
              (''goal_a'', Ref ga),
              (''goal_b'', Ref gb),
              (''walls'', Ref wd),
              (''static_tnt'', Ref td),
              (''barrel_paths'', Ref (length h4)),
              (''barrel_path_lengths'', Ref (length (h4 @ [Arr []]))),
              (''tick_count'', Str (to_String h12 (Num t))),
              (''puzzle_id'', Str (to_String h12 pid)),
              (''moves'', Ref (length h7))]) h12 of
        (input, h13) \<Rightarrow> (Inr (Ref input), h13)))))))"
    unfolding buildCircuitInput_st_def Let_def pv
    by (simp add: g0 d1 d2 alloc_def w t g3 o bl ms split del: if_split)
  \<comment> \<open>the four positions, on the store and in the normaliser\<close>
  let ?E = "TypeError ''Cannot read properties of undefined (reading 'x')''"
  have none: "deref_pair_st (Ref a) k (h7 @ hs) = (Inl ?E, h7 @ hs)"
    if "read_opt (read_coord (lookup h0)) (field fs k) = Some None" for k hs
    using deref_pair_st_ok [OF le la that, of hs] by (simp add: deref_pair_def)
  have some: "deref_pair_st (Ref a) k (h7 @ hs)
      = (Inr (length h7 + length hs), h7 @ hs @ [Arr [Str (fst (str_pair c)), Str (snd (str_pair c))]])"
    if "read_opt (read_coord (lookup h0)) (field fs k) = Some (Some c)" for k hs c
    using deref_pair_st_ok [OF le la that, of hs] by (simp add: deref_pair_def split: prod.splits)
  have pure_none:
    "knight_a_start p = None \<or> knight_b_start p = None \<or> goal_a p = None \<or> goal_b p = None
       \<Longrightarrow> buildCircuitInput ms p t = Inl ?E"
    by (auto simp: buildCircuitInput_def Let_def deref_pair_def split: prod.splits option.splits)
  show ?thesis
  proof (cases "knight_a_start p")
    case None
    with ka pure_none none [of "''knight_a_start''"] show ?thesis
      by (simp add: run)
  next
    case A: (Some ca)
    note sa = some [OF ka [unfolded A]]
    show ?thesis
    proof (cases "knight_b_start p")
      case None
      with kb pure_none none [of "''knight_b_start''"] show ?thesis
        by (simp add: run sa)
    next
      case B: (Some cb)
      note sb = some [OF kb [unfolded B]]
      show ?thesis
      proof (cases "goal_a p")
        case None
        with ga pure_none none [of "''goal_a''"] show ?thesis
          by (simp add: run sa sb)
      next
        case C: (Some cc)
        note sc = some [OF ga [unfolded C]]
        show ?thesis
        proof (cases "goal_b p")
          case None
          with gb pure_none none [of "''goal_b''"] show ?thesis
            by (simp add: run sa sb sc)
        next
          case D: (Some cd)
          note sd = some [OF gb [unfolded D]]
          from A B C D obtain ci where ci: "buildCircuitInput ms p t = Inr ci"
            using build_Inr_iff [of ms p t] by auto
          let ?obj = "Obj [(''grid_width'', Str s1),
              (''grid_height'', Str s2),
              (''knight_a_start'', Ref (Suc (length h7))),
              (''knight_b_start'', Ref (Suc (Suc (length h7)))),
              (''goal_a'', Ref (Suc (Suc (Suc (length h7))))),
              (''goal_b'', Ref (Suc (Suc (Suc (Suc (length h7)))))),
              (''walls'', Ref wd),
              (''static_tnt'', Ref td),
              (''barrel_paths'', Ref (length h4)),
              (''barrel_path_lengths'', Ref (Suc (length h4))),
              (''tick_count'', Str (js_String t)),
              (''puzzle_id'', Str (js_String (puzzle_id p))),
              (''moves'', Ref (length h7))]"
          let ?hs = "[Arr (map (\<lambda>n. Str (js_String n)) ms),
              Arr [Str (fst (str_pair ca)), Str (snd (str_pair ca))],
              Arr [Str (fst (str_pair cb)), Str (snd (str_pair cb))],
              Arr [Str (fst (str_pair cc)), Str (snd (str_pair cc))],
              Arr [Str (fst (str_pair cd)), Str (snd (str_pair cd))],
              ?obj]"
          let ?h13 = "h7 @ ?hs"
          have result: "buildCircuitInput_st moves pv (Num t) h0
              = (Inr (Ref (Suc (Suc (Suc (Suc (Suc (length h7))))))), ?h13)"
            by (simp add: run sa sb sc sd gk pid alloc_def d1 d2 to_String_Num)
          have le13: "lookup h7 \<subseteq>\<^sub>m lookup ?h13"
            by (rule view_frame_empty [OF frame_append])
          have obj: "lookup ?h13 (Suc (Suc (Suc (Suc (Suc (length h7)))))) = Some ?obj"
            by (simp add: lookup_def nth_append)
          have pairs:
            "read_pair (lookup ?h13) (Ref (Suc (length h7))) = Some (str_pair ca)"
            "read_pair (lookup ?h13) (Ref (Suc (Suc (length h7)))) = Some (str_pair cb)"
            "read_pair (lookup ?h13) (Ref (Suc (Suc (Suc (length h7))))) = Some (str_pair cc)"
            "read_pair (lookup ?h13) (Ref (Suc (Suc (Suc (Suc (length h7)))))) = Some (str_pair cd)"
            by (simp_all add: lookup_def nth_append)
          have mvs: "read_array (lookup ?h13) read_str (Ref (length h7)) = Some (map js_String ms)"
            by (simp add: lookup_def nth_append strs_map)
          note arrays = read_pairs_mono [OF rw le13] read_pairs_mono [OF rt le13]
            read_paths_mono [OF rp le13] read_strs_mono [OF rl le13]
          from build_scalars [OF ci] A B C D
          have sc: "ci_knight_a_start ci = str_pair ca" "ci_knight_b_start ci = str_pair cb"
            "ci_goal_a ci = str_pair cc" "ci_goal_b ci = str_pair cd"
            "ci_tick_count ci = js_String t" "ci_puzzle_id ci = js_String (puzzle_id p)"
            "ci_moves ci = map js_String ms"
            by (simp_all add: deref_pair_def)
          note fields = build_grid [OF ci, folded s1_def s2_def]
            build_walls [OF ci, folded s1_def s2_def]
            build_static_tnt [OF ci, folded s1_def s2_def]
            build_barrel_paths [OF ci, folded s1_def s2_def]
            build_barrel_path_lengths [OF ci]
          have "input_at (lookup ?h13) (Ref (Suc (Suc (Suc (Suc (Suc (length h7))))))) ci"
            unfolding input_at.simps obj
            by (simp add: field_def pairs mvs arrays sc fields del: read_pair.simps read_array.simps)
          with result ci show ?thesis
            by auto
        qed
      qed
    qed
  qed
qed

section \<open>Determinism and absence of side effects\<close>

text \<open>
  C8. Take a store that holds a puzzle and an array of moves, and run the normaliser on
  them twice, the second time in the store that the first run left. The first run leaves
  every object of the store it started from as it was, and the second run leaves every
  object of the store it started from as it was: the puzzle and the moves read the same
  after the first run as before it, and the object that the first run returned reads the
  same after the second run. Both runs return what the function \<open>buildCircuitInput\<close>
  computes from the puzzle, the moves and the tick count and from nothing else in the
  store: the same error, or two objects that hold the same circuit input.
\<close>

theorem normaliser_deterministic_without_side_effects:
  assumes "puzzle_at (lookup h) pv p"
    and "read_array (lookup h) read_num mv = Some ms"
    and "buildCircuitInput_st mv pv (Num t) h = (r1, h1)"
    and "buildCircuitInput_st mv pv (Num t) h1 = (r2, h2)"
  shows "take (length h) h1 = h \<and> take (length h1) h2 = h1
       \<and> puzzle_at (lookup h1) pv p \<and> read_array (lookup h1) read_num mv = Some ms
       \<and> (case buildCircuitInput ms p t of
             Inl e \<Rightarrow> r1 = Inl e \<and> r2 = Inl e
           | Inr ci \<Rightarrow>
               \<exists>v1 v2. r1 = Inr v1 \<and> r2 = Inr v2
                 \<and> input_at (lookup h1) v1 ci \<and> input_at (lookup h2) v2 ci
                 \<and> input_at (lookup h2) v1 ci)"
proof -
  from buildCircuitInput_st_frame [of h mv pv "Num t"] assms(3)
  have t1: "take (length h) h1 = h"
    by simp
  from buildCircuitInput_st_frame [of h1 mv pv "Num t"] assms(4)
  have t2: "take (length h1) h2 = h1"
    by simp
  from t1 have le1: "lookup h \<subseteq>\<^sub>m lookup h1"
    by (simp add: view_frame_empty frame_empty_take)
  from t2 have le2: "lookup h1 \<subseteq>\<^sub>m lookup h2"
    by (simp add: view_frame_empty frame_empty_take)
  from assms(1) le1 have p1: "puzzle_at (lookup h1) pv p"
    by (rule puzzle_at_mono)
  from assms(2) le1 have m1: "read_array (lookup h1) read_num mv = Some ms"
    by (rule read_array_mono)
  from buildCircuitInput_st_refines [OF assms(1,2), of t] assms(3)
  have a: "case buildCircuitInput ms p t of
      Inl e \<Rightarrow> r1 = Inl e | Inr ci \<Rightarrow> \<exists>v. r1 = Inr v \<and> input_at (lookup h1) v ci"
    by simp
  from buildCircuitInput_st_refines [OF p1 m1, of t] assms(4)
  have b: "case buildCircuitInput ms p t of
      Inl e \<Rightarrow> r2 = Inl e | Inr ci \<Rightarrow> \<exists>v. r2 = Inr v \<and> input_at (lookup h2) v ci"
    by simp
  have c: "case buildCircuitInput ms p t of
      Inl e \<Rightarrow> r1 = Inl e \<and> r2 = Inl e
    | Inr ci \<Rightarrow>
        \<exists>v1 v2. r1 = Inr v1 \<and> r2 = Inr v2
          \<and> input_at (lookup h1) v1 ci \<and> input_at (lookup h2) v2 ci
          \<and> input_at (lookup h2) v1 ci"
  proof (cases "buildCircuitInput ms p t")
    case (Inl e)
    with a b show ?thesis by simp
  next
    case (Inr ci)
    with a b obtain v1 v2 where "r1 = Inr v1" "r2 = Inr v2"
      "input_at (lookup h1) v1 ci" "input_at (lookup h2) v2 ci"
      by auto
    moreover from this(3) le2 have "input_at (lookup h2) v1 ci"
      by (rule input_at_mono)
    ultimately show ?thesis
      using Inr by auto
  qed
  from t1 t2 p1 m1 c show ?thesis
    by blast
qed

lemma store_one_wall_holds:
  "puzzle_at (lookup store_one_wall) (Ref 16) puzzle_one_wall"
  "read_array (lookup store_one_wall) read_num (Ref 0) = Some [0, 3, 4]"
  by code_simp+

lemma run_one_wall: "fst (buildCircuitInput_st (Ref 0) (Ref 16) (Num 3) store_one_wall) = Inr (Ref 95)"
  by code_simp

theorem normaliser_deterministic_without_side_effects_witness:
  "puzzle_at (lookup store_one_wall) (Ref 16) puzzle_one_wall
   \<and> read_array (lookup store_one_wall) read_num (Ref 0) = Some [0, 3, 4]
   \<and> buildCircuitInput [0, 3, 4] puzzle_one_wall 3 = Inr circuit_one_wall
   \<and> fst (buildCircuitInput_st (Ref 0) (Ref 16) (Num 3) store_one_wall) = Inr (Ref 95)
   \<and> take (length store_one_wall)
        (snd (buildCircuitInput_st (Ref 0) (Ref 16) (Num 3) store_one_wall)) = store_one_wall
   \<and> input_at (lookup (snd (buildCircuitInput_st (Ref 0) (Ref 16) (Num 3) store_one_wall)))
        (Ref 95) circuit_one_wall
   \<and> (\<exists>v2. fst (buildCircuitInput_st (Ref 0) (Ref 16) (Num 3)
                 (snd (buildCircuitInput_st (Ref 0) (Ref 16) (Num 3) store_one_wall))) = Inr v2
         \<and> input_at
             (lookup (snd (buildCircuitInput_st (Ref 0) (Ref 16) (Num 3)
                (snd (buildCircuitInput_st (Ref 0) (Ref 16) (Num 3) store_one_wall)))))
             v2 circuit_one_wall)"
proof -
  let ?run1 = "buildCircuitInput_st (Ref 0) (Ref 16) (Num 3) store_one_wall"
  let ?run2 = "buildCircuitInput_st (Ref 0) (Ref 16) (Num 3) (snd ?run1)"
  have r1: "?run1 = (fst ?run1, snd ?run1)" and r2: "?run2 = (fst ?run2, snd ?run2)"
    by simp_all
  from normaliser_deterministic_without_side_effects [OF store_one_wall_holds r1 r2]
  show ?thesis
    using store_one_wall_holds build_one_wall run_one_wall by (auto simp: build_one_wall)
qed

end
